theory Spec2Isabelle
  imports Main "HOL-Library.Sublist"
begin

section \<open>Python string operations used by the screenshot data source\<close>

text \<open>
  Python strings are modelled as \<open>string\<close> (lists of characters with code points below 256).
  Only the operations that \<open>search_webpage_screenshots.py\<close> calls are modelled, each with
  the behaviour of the Python built-in for a non-empty separator or pattern.
\<close>

text \<open>\<open>str.isspace\<close> for one character (the code points below 256 that Python strips).\<close>

definition isspace :: "char \<Rightarrow> bool" where
  "isspace c = (c \<in> set [CHR 0x09, CHR 0x0A, CHR 0x0B, CHR 0x0C, CHR 0x0D, CHR 0x1C, CHR 0x1D,
      CHR 0x1E, CHR 0x1F, CHR '' '', CHR 0x85, CHR 0xA0])"

text \<open>\<open>s.strip()\<close> and \<open>s.strip(chars)\<close>.\<close>

definition strip :: "string \<Rightarrow> string" where
  "strip s = rev (dropWhile isspace (rev (dropWhile isspace s)))"

definition strip_chars :: "string \<Rightarrow> string \<Rightarrow> string" where
  "strip_chars cs s =
     rev (dropWhile (\<lambda>c. c \<in> set cs) (rev (dropWhile (\<lambda>c. c \<in> set cs) s)))"

text \<open>\<open>s.split(sep)\<close> for a non-empty \<open>sep\<close>: leftmost, non-overlapping cuts.\<close>

fun split :: "string \<Rightarrow> string \<Rightarrow> string list" where
  "split sep [] = [[]]"
| "split sep (c # cs) =
     (if sep \<noteq> [] \<and> prefix sep (c # cs) then [] # split sep (drop (length sep - 1) cs)
      else (case split sep cs of
              [] \<Rightarrow> [[c]]
            | f # fs \<Rightarrow> (c # f) # fs))"

text \<open>\<open>s.replace(old, new)\<close> for a non-empty \<open>old\<close>.\<close>

fun replace :: "string \<Rightarrow> string \<Rightarrow> string \<Rightarrow> string" where
  "replace old new [] = []"
| "replace old new (c # cs) =
     (if old \<noteq> [] \<and> prefix old (c # cs) then new @ replace old new (drop (length old - 1) cs)
      else c # replace old new cs)"

text \<open>\<open>sub in s\<close>.\<close>

fun contains :: "string \<Rightarrow> string \<Rightarrow> bool" where
  "contains sub [] = (sub = [])"
| "contains sub (c # cs) = (prefix sub (c # cs) \<or> contains sub cs)"

text \<open>\<open>sep.join(xs)\<close>.\<close>

fun join :: "string \<Rightarrow> string list \<Rightarrow> string" where
  "join sep [] = []"
| "join sep [x] = x"
| "join sep (x # y # ys) = x @ sep @ join sep (y # ys)"

text \<open>\<open>"%i" % n\<close> for a natural number.\<close>

fun str_of_nat :: "nat \<Rightarrow> string" where
  "str_of_nat n =
     (if n < 10 then [''0123456789'' ! n]
      else str_of_nat (n div 10) @ [''0123456789'' ! (n mod 10)])"

declare str_of_nat.simps [simp del]

section \<open>The Wayback Machine toolbar remover\<close>

text \<open>
  The regular expression \<open>archive\.org/web/[0-9]+/\<close> is matched at the head of a string by
  \<open>match_at\<close>, which returns the digit group and the text after the match. The \<open>+\<close> is
  greedy, and backtracking to fewer digits cannot succeed (the next character would be a
  digit, not \<open>/\<close>), so the match at a position is unique.
\<close>

definition isdigit :: "char \<Rightarrow> bool" where
  "isdigit c = (c \<in> set ''0123456789'')"

definition match_at :: "string \<Rightarrow> (string \<times> string) option" where
  "match_at s =
     (if prefix ''archive.org/web/'' s then
        (let t = drop 16 s; ds = takeWhile isdigit t in
         case dropWhile isdigit t of
           [] \<Rightarrow> None
         | c # r \<Rightarrow> if ds \<noteq> [] \<and> c = CHR ''/'' then Some (ds, r) else None)
      else None)"

text \<open>\<open>re.findall(r"archive\.org/web/[0-9]+/", url)\<close> is non-empty.\<close>

fun re_findall_nonempty :: "string \<Rightarrow> bool" where
  "re_findall_nonempty [] = False"
| "re_findall_nonempty (c # cs) = (match_at (c # cs) \<noteq> None \<or> re_findall_nonempty cs)"

text \<open>
  \<open>re.sub(r"archive\.org/web/([0-9]+)/", "archive.org/web/\\1if_/", url)\<close>: every leftmost
  non-overlapping match is replaced, the scan resuming after the match.
\<close>

function re_sub :: "string \<Rightarrow> string" where
  "re_sub [] = []"
| "re_sub (c # cs) =
     (case match_at (c # cs) of
        Some (ds, r) \<Rightarrow> ''archive.org/web/'' @ ds @ ''if_/'' @ re_sub r
      | None \<Rightarrow> c # re_sub cs)"
  by pat_completeness auto
termination
proof (relation "measure length")
  show "wf (measure length)" by simp
next
  fix c :: char and cs :: string and x2 :: "string \<times> string" and ds r :: string
  assume m: "match_at (c # cs) = Some x2" and x: "(ds, r) = x2"
  then obtain d where "dropWhile isdigit (drop 16 (c # cs)) = d # r"
    by (auto simp: match_at_def Let_def split: if_splits list.splits)
  then have "length (dropWhile isdigit (drop 16 (c # cs))) = Suc (length r)" by simp
  moreover have "length (dropWhile isdigit (drop 16 (c # cs))) \<le> length (drop 16 (c # cs))"
    by (rule length_dropWhile_le)
  ultimately show "(r, c # cs) \<in> measure length" by simp
next
  fix c :: char and cs :: string
  show "(cs, c # cs) \<in> measure length" by simp
qed

text \<open>The body of the loop at lines 254-258.\<close>

definition detoolbar :: "string \<Rightarrow> string" where
  "detoolbar u = (if re_findall_nonempty u then re_sub u else u)"

section \<open>Exceptions and the query dictionary\<close>

datatype exn =
    QueryParametersException string
  | ProcessorInterruptedException string
  | IndexError

text \<open>
  The query arrives from the client as a dictionary of text parameters and leaves
  \<open>validate_query\<close> with the key \<open>query\<close> bound to the list of URLs.
\<close>

datatype qval = Text string | UrlList "string list"

text \<open>\<open>"%i" % n\<close> and the f-string rendering of an integer.\<close>

definition str_of_int :: "int \<Rightarrow> string" where
  "str_of_int i = (if i < 0 then ''-'' @ str_of_nat (nat (- i)) else str_of_nat (nat i))"

section \<open>\<open>validate_query\<close>\<close>

text \<open>\<open>query.get("query", "")\<close>.\<close>

definition query_text :: "(string \<rightharpoonup> string) \<Rightarrow> string" where
  "query_text query = (case query ''query'' of None \<Rightarrow> [] | Some q \<Rightarrow> q)"

text \<open>Line 244: newlines become commas, the text is cut at commas, each token is stripped.\<close>

definition tokens :: "string \<Rightarrow> string list" where
  "tokens q = map strip (split '','' (replace [CHR 0x0A] '','' q))"

text \<open>
  Line 245. \<open>ural.is_url\<close> with the keyword arguments of the call is a third-party
  library function; it is the parameter \<open>is_url\<close>.
\<close>

definition preprocess :: "(string \<Rightarrow> bool) \<Rightarrow> string \<Rightarrow> string list" where
  "preprocess is_url q = filter is_url (tokens q)"

text \<open>
  \<open>max_sites\<close> is the configuration value \<open>selenium.max_sites\<close>. The three
  \<open>raise\<close> statements are tried in the order of the source.
\<close>

definition validate_query ::
  "(string \<Rightarrow> bool) \<Rightarrow> int \<Rightarrow> (string \<rightharpoonup> string) \<Rightarrow> exn + (string \<rightharpoonup> qval)" where
  "validate_query is_url max_sites query =
     (if query ''query'' = None \<or> query ''query'' = Some [] then
        Inl (QueryParametersException ''Please provide a List of urls.'')
      else
        (let preprocessed_urls = preprocess is_url (query_text query) in
         if int (length preprocessed_urls) > max_sites then
           Inl (QueryParametersException
                  (''You cannot collect more than '' @ str_of_int max_sites
                     @ '' screenshots per dataset. If you have more URLs, consider limiting your dataset first by either decreasing the resolution (i.e. fewer screenshots per year) or the length of the dataset (i.e. covering a shorter period of time).''))
         else
           (let detoolbarred_urls = map detoolbar preprocessed_urls in
            if detoolbarred_urls = [] then
              Inl (QueryParametersException
                     ''No valid URLs provided - please enter one valid URL per line.'')
            else
              Inr ((map_option Text \<circ> query)(''query'' \<mapsto> UrlList detoolbarred_urls)))))"

section \<open>\<open>filename_from_url\<close>\<close>

text \<open>\<open>xs[1]\<close> and \<open>xs[0]\<close>, raising \<open>IndexError\<close> out of range.\<close>

definition index1 :: "'a list \<Rightarrow> exn + 'a" where
  "index1 xs = (case xs of _ # y # _ \<Rightarrow> Inr y | _ \<Rightarrow> Inl IndexError)"

definition index0 :: "'a list \<Rightarrow> exn + 'a" where
  "index0 xs = (case xs of y # _ \<Rightarrow> Inr y | _ \<Rightarrow> Inl IndexError)"

text \<open>
  \<open>url_to_hash\<close> (from \<open>common.lib.helpers\<close>), \<open>ural.get_domain_name\<close> and the clock
  reading \<open>datetime.datetime.now().strftime("%Y%m%d%H%M%S")\<close> are parameters: the hash
  function, the rendered domain and the rendered capture time.
\<close>

definition filename_from_url ::
  "(string \<Rightarrow> string) \<Rightarrow> (string \<Rightarrow> string) \<Rightarrow> string \<Rightarrow> string \<Rightarrow> exn + string" where
  "filename_from_url url_to_hash get_domain_name now_str u =
     (let url_hash = url_to_hash u;
          domain = get_domain_name u;
          timestamp = now_str
      in if contains ''web.archive.org/web/'' u then
           (case index1 (split ''web.archive.org/web/'' u) of
              Inl x \<Rightarrow> Inl x
            | Inr snapshot \<Rightarrow>
                (case index0 (split ''/'' snapshot) of
                   Inl x \<Rightarrow> Inl x
                 | Inr ts \<Rightarrow>
                     (case index1 (split ''://'' snapshot) of
                        Inl x \<Rightarrow> Inl x
                      | Inr archived \<Rightarrow>
                          (case index0 (split ''/'' archived) of
                             Inl x \<Rightarrow> Inl x
                           | Inr host \<Rightarrow>
                               Inr ((strip_chars ''/'' host @ ''-archived'') @ ''-''
                                      @ replace ''if_'' [] ts @ ''-'' @ url_hash)))))
         else Inr (domain @ ''-'' @ timestamp @ ''-'' @ url_hash))"

section \<open>The capture loop of \<open>get_items\<close>\<close>

text \<open>
  The collaborators of the loop: the Selenium wrapper, the job object and the clock. The
  world \<open>'w\<close> is whatever state they hold. A call that the source wraps in
  \<open>try\<close>/\<open>except\<close> returns \<open>Some (str e)\<close> when it raises; the other calls are taken
  to return normally. Window size and wait time only travel to the driver and are part of
  \<open>save_screenshot\<close>, \<open>scroll_down_page_to_load\<close> and \<open>wait_for_ready\<close>; the last one
  stands for the polling loop of lines 175-178, which is bounded by the wall clock.
  Logging and progress reports do not affect control flow and are left out.
\<close>

record 'w selenium =
  interrupted :: "'w \<Rightarrow> bool"
  reset_current_page :: "'w \<Rightarrow> 'w"
  driver_get :: "string \<Rightarrow> 'w \<Rightarrow> string option \<times> 'w"
  restart_selenium :: "'w \<Rightarrow> 'w"
  scroll_down_page_to_load :: "'w \<Rightarrow> 'w"
  wait_for_ready :: "'w \<Rightarrow> 'w"
  check_for_movement :: "'w \<Rightarrow> bool \<times> 'w"
  sleep :: "nat \<Rightarrow> 'w \<Rightarrow> 'w"
  save_screenshot :: "string \<Rightarrow> 'w \<Rightarrow> string option \<times> 'w"
  current_url :: "'w \<Rightarrow> string"
  title :: "'w \<Rightarrow> string"
  now :: "'w \<Rightarrow> int"
  strftime_now :: "'w \<Rightarrow> string"
  url_to_hash :: "string \<Rightarrow> string"
  get_domain_name :: "string \<Rightarrow> string"

text \<open>The parameters the loop itself branches on: \<open>capture\<close> and \<open>pause-time\<close>.\<close>

record parameters =
  capture :: string
  pause :: nat

text \<open>The entry of the metadata document for one URL, as frozen at lines 204-210.\<close>

record capture_result =
  url :: string
  filename :: string
  timestamp :: "int option"
  error :: string
  final_url :: "string option"
  subject :: "string option"

text \<open>
  What survives an exception: the collaborators' world and the staging area, with the
  screenshot files saved so far and the metadata document \<open>.metadata.json\<close> once written.
\<close>

record 'w env =
  world :: 'w
  staged_files :: "string list"
  metadata_json :: "(string \<times> capture_result) list option"

text \<open>The local variables of \<open>get_items\<close>; they are lost when an exception leaves it.\<close>

record locals =
  screenshots :: nat
  done_count :: nat
  scraped_urls :: "string set"
  metadata :: "(string \<times> capture_result) list"

text \<open>\<open>metadata[k] = v\<close> on a dictionary that keeps insertion order.\<close>

fun dict_set :: "'k \<Rightarrow> 'v \<Rightarrow> ('k \<times> 'v) list \<Rightarrow> ('k \<times> 'v) list" where
  "dict_set k v [] = [(k, v)]"
| "dict_set k v ((k', v') # m) = (if k = k' then (k, v) # m else (k', v') # dict_set k v m)"

text \<open>
  One pass through the body of the inner loop (lines 159-202) for attempt number \<open>n\<close>:
  \<open>None\<close> when the screenshot was saved, \<open>Some msg\<close> with the message appended to
  \<open>result['error']\<close> otherwise.
\<close>

definition attempt ::
  "'w selenium \<Rightarrow> parameters \<Rightarrow> string \<Rightarrow> string \<Rightarrow> nat \<Rightarrow> 'w \<Rightarrow> string option \<times> 'w" where
  "attempt S P u fname n w =
     (case driver_get S u (reset_current_page S w) of
        (Some e, w1) \<Rightarrow> (Some (''Attempt '' @ str_of_nat n @ '': '' @ e), restart_selenium S w1)
      | (None, w1) \<Rightarrow>
          (case check_for_movement S
                  (if capture P = ''all'' then scroll_down_page_to_load S w1
                   else wait_for_ready S w1) of
             (True, w2) \<Rightarrow>
               (case save_screenshot S fname (if pause P \<noteq> 0 then sleep S (pause P) w2 else w2) of
                  (Some e, w3) \<Rightarrow> (Some (''Attempt '' @ str_of_nat n @ '': '' @ e), w3)
                | (None, w3) \<Rightarrow> (None, w3))
           | (False, w2) \<Rightarrow> (Some ''Driver was not able to navigate to page'', w2)))"

text \<open>
  The inner loop \<open>while attempts < 2\<close> (lines 155-202). It returns \<open>success\<close>, the number
  of attempts made, the error list, the screenshot counter and the environment.
\<close>

function attempt_loop ::
  "'w selenium \<Rightarrow> parameters \<Rightarrow> string \<Rightarrow> string \<Rightarrow> nat \<Rightarrow> string list \<Rightarrow> nat \<Rightarrow> 'w env
     \<Rightarrow> bool \<times> nat \<times> string list \<times> nat \<times> 'w env" where
  "attempt_loop S P u fname attempts errs shots e =
     (if attempts < 2 then
        (case attempt S P u fname (Suc attempts) (world e) of
           (Some msg, w) \<Rightarrow>
             attempt_loop S P u fname (Suc attempts) (errs @ [msg]) shots (e\<lparr>world := w\<rparr>)
         | (None, w) \<Rightarrow>
             (True, Suc attempts, errs, Suc shots,
              e\<lparr>world := w, staged_files := staged_files e @ [fname]\<rparr>))
      else (False, attempts, errs, shots, e))"
  by pat_completeness auto
termination
  by (relation "measure (\<lambda>(S, P, u, fname, attempts, errs, shots, e). 2 - attempts)") auto

declare attempt_loop.simps [simp del]

text \<open>
  Lines 144-202: the URL joins \<open>scraped_urls\<close>, the file name is derived, the attempts run.
  The result is the file name, \<open>success\<close>, the error list and the locals as they are when
  control reaches line 204.
\<close>

definition capture_url ::
  "'w selenium \<Rightarrow> parameters \<Rightarrow> string \<Rightarrow> locals \<Rightarrow> 'w env
     \<Rightarrow> (exn + string \<times> bool \<times> string list \<times> locals) \<times> 'w env" where
  "capture_url S P u st e =
     (case filename_from_url (url_to_hash S) (get_domain_name S) (strftime_now S (world e)) u of
        Inl x \<Rightarrow> (Inl x, e)
      | Inr f \<Rightarrow>
          (case attempt_loop S P u (f @ ''.png'') 0 [] (screenshots st) e of
             (success, attempts, errs, shots, e') \<Rightarrow>
               (Inr (f @ ''.png'', success, errs,
                     st\<lparr>scraped_urls := insert u (scraped_urls st), screenshots := shots\<rparr>),
                e')))"

text \<open>Lines 204-214: the result is frozen and recorded, \<open>done\<close> is incremented.\<close>

definition frozen_result ::
  "'w selenium \<Rightarrow> string \<Rightarrow> string \<Rightarrow> bool \<Rightarrow> string list \<Rightarrow> 'w \<Rightarrow> capture_result" where
  "frozen_result S u fname success errs w =
     \<lparr>url = u, filename = fname, timestamp = Some (now S w), error = join '', '' errs,
      final_url = (if success then Some (current_url S w) else None),
      subject = (if success then Some (title S w) else None)\<rparr>"

definition record_result ::
  "'w selenium \<Rightarrow> string \<Rightarrow> string \<Rightarrow> bool \<Rightarrow> string list \<Rightarrow> locals \<Rightarrow> 'w env \<Rightarrow> locals" where
  "record_result S u fname success errs st e =
     st\<lparr>metadata := dict_set u (frozen_result S u fname success errs (world e)) (metadata st),
        done_count := Suc (done_count st)\<rparr>"

text \<open>The body of the outer loop after the interruption check (lines 136-214).\<close>

definition iteration ::
  "'w selenium \<Rightarrow> parameters \<Rightarrow> string \<Rightarrow> locals \<Rightarrow> 'w env \<Rightarrow> (exn + locals) \<times> 'w env" where
  "iteration S P u st e =
     (if u \<in> scraped_urls st then (Inr (st\<lparr>done_count := Suc (done_count st)\<rparr>), e)
      else
        (case capture_url S P u st e of
           (Inl x, e') \<Rightarrow> (Inl x, e')
         | (Inr (fname, success, errs, st'), e') \<Rightarrow>
             (Inr (record_result S u fname success errs st' e'), e')))"

text \<open>The outer loop \<open>while urls_to_scrape\<close> (lines 131-214).\<close>

fun capture_loop ::
  "'w selenium \<Rightarrow> parameters \<Rightarrow> string list \<Rightarrow> locals \<Rightarrow> 'w env \<Rightarrow> (exn + locals) \<times> 'w env" where
  "capture_loop S P [] st e = (Inr st, e)"
| "capture_loop S P (u # us) st e =
     (if interrupted S (world e) then
        (Inl (ProcessorInterruptedException ''Interrupted while making screenshots''), e)
      else
        (case iteration S P u st e of
           (Inl x, e') \<Rightarrow> (Inl x, e')
         | (Inr st', e') \<Rightarrow> capture_loop S P us st' e'))"

definition initial_locals :: locals where
  "initial_locals = \<lparr>screenshots = 0, done_count = 0, scraped_urls = {}, metadata = []\<rparr>"

text \<open>
  \<open>get_items\<close> for \<open>urls_to_scrape = query.get('query')\<close>. After the loop the metadata
  document is written (lines 216-217). The source returns the staging path; the model
  returns the final locals, whose counters the source logs.
\<close>

definition get_items ::
  "'w selenium \<Rightarrow> parameters \<Rightarrow> string list \<Rightarrow> 'w env \<Rightarrow> (exn + locals) \<times> 'w env" where
  "get_items S P urls_to_scrape e =
     (case capture_loop S P urls_to_scrape initial_locals e of
        (Inl x, e') \<Rightarrow> (Inl x, e')
      | (Inr st, e') \<Rightarrow> (Inr st, e'\<lparr>metadata_json := Some (metadata st)\<rparr>))"

text \<open>
  The state at the head of the outer loop after \<open>k\<close> completed iterations, if the loop gets
  that far: \<open>None\<close> once an exception has left the loop.
\<close>

fun loop_head ::
  "'w selenium \<Rightarrow> parameters \<Rightarrow> string list \<Rightarrow> locals \<Rightarrow> 'w env \<Rightarrow> nat \<Rightarrow> (locals \<times> 'w env) option" where
  "loop_head S P us st e 0 = Some (st, e)"
| "loop_head S P us st e (Suc k) =
     (case loop_head S P us st e k of
        None \<Rightarrow> None
      | Some (st', e') \<Rightarrow>
          (if k < length us \<and> \<not> interrupted S (world e') then
             (case iteration S P (us ! k) st' e' of
                (Inl x, e'') \<Rightarrow> None
              | (Inr st'', e'') \<Rightarrow> Some (st'', e''))
           else None))"

declare loop_head.simps(2) [simp del]

section \<open>Scripted collaborators\<close>

text \<open>
  A driver whose world is the number of navigations made so far. The outcome of each call
  is read from a script indexed by that number.
\<close>

definition scripted ::
  "(nat \<Rightarrow> string option) \<Rightarrow> (nat \<Rightarrow> bool) \<Rightarrow> (nat \<Rightarrow> string option) \<Rightarrow> (nat \<Rightarrow> bool)
     \<Rightarrow> nat selenium" where
  "scripted nav moved shot intr =
     \<lparr>interrupted = intr,
      reset_current_page = (\<lambda>w. w),
      driver_get = (\<lambda>u w. (nav w, Suc w)),
      restart_selenium = (\<lambda>w. w),
      scroll_down_page_to_load = (\<lambda>w. w),
      wait_for_ready = (\<lambda>w. w),
      check_for_movement = (\<lambda>w. (moved w, w)),
      sleep = (\<lambda>n w. w),
      save_screenshot = (\<lambda>f w. (shot w, w)),
      current_url = (\<lambda>w. ''https://landing.example/''),
      title = (\<lambda>w. ''Example Domain''),
      now = (\<lambda>w. 1700000000 + int w),
      strftime_now = (\<lambda>w. ''20240101000000''),
      url_to_hash = filter (\<lambda>c. c \<noteq> CHR ''/'' \<and> c \<noteq> CHR '':''),
      get_domain_name = (\<lambda>u. ''site'')\<rparr>"

text \<open>Four scenarios: every call succeeds; the first navigation times out; every navigation
  times out; the job is interrupted once the first navigation has been made.\<close>

definition steady_driver :: "nat selenium" where
  "steady_driver = scripted (\<lambda>n. None) (\<lambda>n. True) (\<lambda>n. None) (\<lambda>n. False)"

definition flaky_driver :: "nat selenium" where
  "flaky_driver =
     scripted (\<lambda>n. if n = 0 then Some ''timeout'' else None) (\<lambda>n. True) (\<lambda>n. None) (\<lambda>n. False)"

definition dead_driver :: "nat selenium" where
  "dead_driver = scripted (\<lambda>n. Some ''timeout'') (\<lambda>n. True) (\<lambda>n. None) (\<lambda>n. False)"

definition interrupted_driver :: "nat selenium" where
  "interrupted_driver = scripted (\<lambda>n. None) (\<lambda>n. True) (\<lambda>n. None) (\<lambda>n. 1 \<le> n)"

text \<open>A stand-in for \<open>ural.is_url\<close>: an explicit http or https scheme and no space.\<close>

definition sample_is_url :: "string \<Rightarrow> bool" where
  "sample_is_url u = ((prefix ''http://'' u \<or> prefix ''https://'' u) \<and> CHR '' '' \<notin> set u)"


definition viewport :: parameters where
  "viewport = \<lparr>capture = ''viewport'', pause = 0\<rparr>"

definition empty_env :: "nat env" where
  "empty_env = \<lparr>world = 0, staged_files = [], metadata_json = None\<rparr>"

section \<open>Properties of the toolbar remover\<close>

lemma isdigit_not_a: "isdigit c \<Longrightarrow> c \<noteq> CHR ''a''"
  by (auto simp: isdigit_def)

lemma not_isdigit_slash: "\<not> isdigit CHR ''/''"
  by (simp add: isdigit_def)

lemma not_isdigit_i: "\<not> isdigit CHR ''i''"
  by (simp add: isdigit_def)

lemma match_at_Some_iff:
  "match_at s = Some (ds, r) \<longleftrightarrow>
     s = ''archive.org/web/'' @ ds @ CHR ''/'' # r \<and> ds \<noteq> [] \<and> (\<forall>c\<in>set ds. isdigit c)"
proof
  assume m: "match_at s = Some (ds, r)"
  then have p: "prefix ''archive.org/web/'' s"
    by (simp add: match_at_def split: if_splits)
  then obtain t where s: "s = ''archive.org/web/'' @ t"
    by (auto simp: prefix_def)
  have t: "drop 16 s = t" by (simp add: s)
  from m p t have d: "dropWhile isdigit t = CHR ''/'' # r" and ds: "ds = takeWhile isdigit t" "ds \<noteq> []"
    by (auto simp: match_at_def Let_def split: list.splits if_splits)
  have "t = takeWhile isdigit t @ dropWhile isdigit t" by simp
  with d ds have "t = ds @ CHR ''/'' # r" by simp
  moreover have "\<forall>c\<in>set ds. isdigit c" using ds(1) by (auto dest: set_takeWhileD)
  ultimately show "s = ''archive.org/web/'' @ ds @ CHR ''/'' # r \<and> ds \<noteq> [] \<and> (\<forall>c\<in>set ds. isdigit c)"
    using s ds(2) by simp
next
  assume a: "s = ''archive.org/web/'' @ ds @ CHR ''/'' # r \<and> ds \<noteq> [] \<and> (\<forall>c\<in>set ds. isdigit c)"
  then have s: "s = ''archive.org/web/'' @ ds @ CHR ''/'' # r" and ne: "ds \<noteq> []"
    and dg: "\<forall>c\<in>set ds. isdigit c" by auto
  have nd: "\<not> isdigit CHR ''/''" by (rule not_isdigit_slash)
  have t: "drop 16 s = ds @ CHR ''/'' # r" by (simp add: s)
  have tw: "takeWhile isdigit (ds @ CHR ''/'' # r) = ds"
    using dg nd by simp
  have dw: "dropWhile isdigit (ds @ CHR ''/'' # r) = CHR ''/'' # r"
    using dg nd by simp
  have p: "prefix ''archive.org/web/'' s" by (simp add: s)
  show "match_at s = Some (ds, r)"
    unfolding match_at_def using p ne by (simp add: t tw dw Let_def)
qed

lemma match_at_head: "match_at (c # s) \<noteq> None \<Longrightarrow> c = CHR ''a''"
  by (auto simp: match_at_def split: if_splits)

lemma takeWhile_re_sub:
  "takeWhile (\<lambda>c. c \<noteq> CHR ''a'') (re_sub s) = takeWhile (\<lambda>c. c \<noteq> CHR ''a'') s"
proof (induction s rule: re_sub.induct)
  case 1
  then show ?case by simp
next
  case (2 c cs)
  show ?case
  proof (cases "match_at (c # cs)")
    case None
    with 2 show ?thesis by simp
  next
    case (Some p)
    then have "c = CHR ''a''" using match_at_head[of c cs] by simp
    with Some show ?thesis by (cases p) simp
  qed
qed

lemma match_at_takeWhile:
  assumes m: "match_at (c # t) \<noteq> None"
    and e: "takeWhile (\<lambda>c. c \<noteq> CHR ''a'') t' = takeWhile (\<lambda>c. c \<noteq> CHR ''a'') t"
  shows "match_at (c # t') \<noteq> None"
proof -
  from m obtain ds r where "match_at (c # t) = Some (ds, r)" by auto
  then have s: "c # t = ''archive.org/web/'' @ ds @ CHR ''/'' # r" and ne: "ds \<noteq> []"
    and dg: "\<forall>c\<in>set ds. isdigit c"
    using match_at_Some_iff[of "c # t" ds r] by blast+
  define x where "x = ''rchive.org/web/'' @ ds @ ''/''"
  have c: "c = CHR ''a''" and t: "t = x @ r" using s by (simp_all add: x_def)
  have "\<forall>c\<in>set ds. c \<noteq> CHR ''a''" using dg isdigit_not_a by blast
  then have na: "\<forall>c\<in>set x. c \<noteq> CHR ''a''"
    by (simp add: x_def)
  have "takeWhile (\<lambda>c. c \<noteq> CHR ''a'') t = x @ takeWhile (\<lambda>c. c \<noteq> CHR ''a'') r"
    using na by (simp add: t)
  with e have "takeWhile (\<lambda>c. c \<noteq> CHR ''a'') t' = x @ takeWhile (\<lambda>c. c \<noteq> CHR ''a'') r" by simp
  moreover have "t' = takeWhile (\<lambda>c. c \<noteq> CHR ''a'') t' @ dropWhile (\<lambda>c. c \<noteq> CHR ''a'') t'" by simp
  ultimately obtain r' where "t' = x @ r'" by (metis append.assoc)
  then have "c # t' = ''archive.org/web/'' @ ds @ CHR ''/'' # r'" by (simp add: c x_def)
  with ne dg have "match_at (c # t') = Some (ds, r')" by (simp only: match_at_Some_iff simp_thms)
  then show ?thesis by simp
qed

lemma findall_skip: "\<forall>c\<in>set x. c \<noteq> CHR ''a'' \<Longrightarrow> re_findall_nonempty (x @ t) = re_findall_nonempty t"
proof (induction x)
  case Nil then show ?case by simp
next
  case (Cons c x)
  have "c \<noteq> CHR ''a''" using Cons.prems by simp
  then have "match_at (c # x @ t) = None" using match_at_head by blast
  moreover have "re_findall_nonempty (x @ t) = re_findall_nonempty t"
    using Cons.IH Cons.prems by simp
  ultimately show ?case by simp
qed

lemma findall_rewritten:
  assumes dg: "\<forall>c\<in>set ds. isdigit c"
  shows "re_findall_nonempty (''archive.org/web/'' @ ds @ ''if_/'' @ t) = re_findall_nonempty t"
proof -
  have "match_at (''archive.org/web/'' @ ds @ ''if_/'' @ t) = None"
  proof (rule ccontr)
    assume "match_at (''archive.org/web/'' @ ds @ ''if_/'' @ t) \<noteq> None"
    then obtain es r where "match_at (''archive.org/web/'' @ ds @ ''if_/'' @ t) = Some (es, r)" by auto
    then have eq: "ds @ ''if_/'' @ t = es @ CHR ''/'' # r" and eg: "\<forall>c\<in>set es. isdigit c"
      by (simp_all add: match_at_Some_iff)
    have "takeWhile isdigit (ds @ ''if_/'' @ t) = ds"
      using dg by (simp add: not_isdigit_i)
    moreover have "takeWhile isdigit (es @ CHR ''/'' # r) = es"
      using eg by (simp add: not_isdigit_slash)
    ultimately have "es = ds" using eq by simp
    with eq show False by simp
  qed
  moreover have "re_findall_nonempty (''rchive.org/web/'' @ ds @ ''if_/'' @ t) = re_findall_nonempty t"
  proof -
    have "\<forall>c\<in>set ds. c \<noteq> CHR ''a''" using dg isdigit_not_a by blast
    then have "\<forall>c\<in>set (''rchive.org/web/'' @ ds @ ''if_/''). c \<noteq> CHR ''a''"
      by simp
    from findall_skip[OF this, of t] show ?thesis by simp
  qed
  ultimately show ?thesis by simp
qed

lemma findall_re_sub: "\<not> re_findall_nonempty (re_sub s)"
proof (induction s rule: re_sub.induct)
  case 1
  then show ?case by simp
next
  case (2 c cs)
  show ?case
  proof (cases "match_at (c # cs)")
    case None
    have "match_at (c # re_sub cs) = None"
    proof (rule ccontr)
      assume "match_at (c # re_sub cs) \<noteq> None"
      from match_at_takeWhile[OF this, of cs] None show False
        by (simp add: takeWhile_re_sub)
    qed
    with 2 None show ?thesis by simp
  next
    case (Some p)
    obtain ds r where p: "p = (ds, r)" by (cases p)
    with Some have dg: "\<forall>c\<in>set ds. isdigit c" by (simp add: match_at_Some_iff)
    from 2(2)[OF Some p[symmetric]] have "\<not> re_findall_nonempty (re_sub r)" .
    with findall_rewritten[OF dg, of "re_sub r"] Some p show ?thesis by simp
  qed
qed

text \<open>
  Claim C4: the archive-toolbar rewrite is idempotent. Applying it to an already rewritten
  URL changes nothing, because no match of the pattern is left after one pass, so the
  \<open>if_\<close> marker is never inserted twice.
\<close>

theorem detoolbar_idem: "detoolbar (detoolbar u) = detoolbar u \<and> \<not> re_findall_nonempty (detoolbar u)"
  by (simp add: detoolbar_def findall_re_sub)

section \<open>Properties of the attempts and of one iteration\<close>

lemma attempt_msg_nonempty: "attempt S P u f n w = (Some m, w') \<Longrightarrow> m \<noteq> []"
  by (auto simp: attempt_def split: prod.splits option.splits bool.splits if_splits)

lemma attempt_loop_2: "attempt_loop S P u f (Suc (Suc 0)) errs shots e = (False, Suc (Suc 0), errs, shots, e)"
  by (simp add: attempt_loop.simps)

lemma attempt_loop_1:
  "attempt_loop S P u f (Suc 0) errs shots e =
     (case attempt S P u f (Suc (Suc 0)) (world e) of
        (Some m, w) \<Rightarrow> (False, Suc (Suc 0), errs @ [m], shots, e\<lparr>world := w\<rparr>)
      | (None, w) \<Rightarrow> (True, Suc (Suc 0), errs, Suc shots, e\<lparr>world := w, staged_files := staged_files e @ [f]\<rparr>))"
  by (subst attempt_loop.simps) (simp add: attempt_loop_2 split: prod.splits option.splits)

lemma attempt_loop_0:
  "attempt_loop S P u f 0 errs shots e =
     (case attempt S P u f (Suc 0) (world e) of
        (None, w) \<Rightarrow> (True, Suc 0, errs, Suc shots, e\<lparr>world := w, staged_files := staged_files e @ [f]\<rparr>)
      | (Some m, w) \<Rightarrow>
          (case attempt S P u f (Suc (Suc 0)) w of
             (Some m', w') \<Rightarrow> (False, Suc (Suc 0), errs @ [m, m'], shots, e\<lparr>world := w'\<rparr>)
           | (None, w') \<Rightarrow> (True, Suc (Suc 0), errs @ [m], Suc shots, e\<lparr>world := w', staged_files := staged_files e @ [f]\<rparr>)))"
  by (subst attempt_loop.simps) (simp add: attempt_loop_1 split: prod.splits option.splits)

lemma map_of_dict_set: "map_of (dict_set k v m) = (map_of m)(k \<mapsto> v)"
  by (induction m) (auto simp: fun_eq_iff)

lemma keys_dict_set: "fst ` set (dict_set k v m) = insert k (fst ` set m)"
proof (induction m)
  case Nil then show ?case by simp
next
  case (Cons p m)
  obtain k' v' where p: "p = (k', v')" by (cases p)
  show ?case
  proof (cases "k = k'")
    case True
    then show ?thesis by (simp add: p)
  next
    case False
    then show ?thesis using Cons by (simp add: p insert_commute)
  qed
qed

lemma distinct_dict_set: "distinct (map fst m) \<Longrightarrow> distinct (map fst (dict_set k v m))"
proof (induction m)
  case Nil then show ?case by simp
next
  case (Cons p m)
  obtain k' v' where p: "p = (k', v')" by (cases p)
  have "fst ` set (dict_set k v m) = insert k (fst ` set m)" by (rule keys_dict_set)
  with Cons p show ?case by auto
qed

lemma values_dict_set: "(k', r) \<in> set (dict_set k v m) \<Longrightarrow> r = v \<or> (k', r) \<in> set m"
  by (induction m) (auto split: if_splits)

lemma iteration_skip:
  "u \<in> scraped_urls st \<Longrightarrow> iteration S P u st e = (Inr (st\<lparr>done_count := Suc (done_count st)\<rparr>), e)"
  by (simp add: iteration_def)

text \<open>What the attempt loop does to the environment and to the counter.\<close>

lemma attempt_loop_0_cases:
  assumes "attempt_loop S P u f 0 [] shots e = (ok, n, errs, shots', e')"
  shows "metadata_json e' = metadata_json e \<and>
     (if ok then shots' = Suc shots \<and> staged_files e' = staged_files e @ [f] \<and>
                 (errs = [] \<longleftrightarrow> fst (attempt S P u f (Suc 0) (world e)) = None) \<and> length errs < 2
                 \<and> (n = Suc (length errs))
      else shots' = shots \<and> staged_files e' = staged_files e \<and> length errs = 2 \<and> n = 2)
     \<and> (\<forall>m\<in>set errs. m \<noteq> [])"
  using assms
  by (auto simp: attempt_loop_0 split: prod.splits option.splits dest: attempt_msg_nonempty)


lemma iteration_new:
  assumes "u \<notin> scraped_urls st" and "iteration S P u st e = (Inr st', e')"
  shows "\<exists>f ok n errs.
    filename_from_url (url_to_hash S) (get_domain_name S) (strftime_now S (world e)) u = Inr f \<and>
    attempt_loop S P u (f @ ''.png'') 0 [] (screenshots st) e = (ok, n, errs, screenshots st', e') \<and>
    scraped_urls st' = insert u (scraped_urls st) \<and>
    metadata st' = dict_set u (frozen_result S u (f @ ''.png'') ok errs (world e')) (metadata st) \<and>
    done_count st' = Suc (done_count st)"
proof -
  from assms obtain f where f: "filename_from_url (url_to_hash S) (get_domain_name S) (strftime_now S (world e)) u = Inr f"
    by (auto simp: iteration_def capture_url_def split: sum.splits prod.splits)
  obtain ok n errs shots e1 where a: "attempt_loop S P u (f @ ''.png'') 0 [] (screenshots st) e = (ok, n, errs, shots, e1)"
    using prod_cases5 by blast
  from assms f a have e: "e' = e1" and st: "st' = record_result S u (f @ ''.png'') ok errs
      (st\<lparr>scraped_urls := insert u (scraped_urls st), screenshots := shots\<rparr>) e1"
    by (auto simp: iteration_def capture_url_def)
  have "screenshots st' = shots" "scraped_urls st' = insert u (scraped_urls st)"
    "metadata st' = dict_set u (frozen_result S u (f @ ''.png'') ok errs (world e')) (metadata st)"
    "done_count st' = Suc (done_count st)"
    by (simp_all add: st e record_result_def)
  with f a e show ?thesis by blast
qed

lemma iteration_env:
  assumes "iteration S P u st e = (x, e')"
  shows "metadata_json e' = metadata_json e \<and> prefix (staged_files e) (staged_files e')"
proof (cases "u \<in> scraped_urls st")
  case True
  with assms show ?thesis by (simp add: iteration_def)
next
  case False
  show ?thesis
  proof (cases "filename_from_url (url_to_hash S) (get_domain_name S) (strftime_now S (world e)) u")
    case (Inl a)
    with assms False show ?thesis by (simp add: iteration_def capture_url_def)
  next
    case (Inr f)
    obtain ok n errs shots e1 where a: "attempt_loop S P u (f @ ''.png'') 0 [] (screenshots st) e = (ok, n, errs, shots, e1)"
      using prod_cases5 by blast
    with assms False Inr have "e' = e1" by (simp add: iteration_def capture_url_def)
    with attempt_loop_0_cases[OF a] show ?thesis by (cases ok) simp_all
  qed
qed

lemma iteration_counts:
  assumes it: "iteration S P u st e = (Inr st', e')"
  shows "done_count st' = Suc (done_count st) \<and> screenshots st \<le> screenshots st' \<and>
     screenshots st' \<le> Suc (screenshots st) \<and> scraped_urls st' = insert u (scraped_urls st)"
proof (cases "u \<in> scraped_urls st")
  case True
  with it have "st' = st\<lparr>done_count := Suc (done_count st)\<rparr>" by (simp add: iteration_skip)
  then have "done_count st' = Suc (done_count st)" "screenshots st' = screenshots st"
    "scraped_urls st' = scraped_urls st" by simp_all
  with True show ?thesis by (simp add: insert_absorb)
next
  case False
  from iteration_new[OF False it] obtain f ok n errs where
    a: "attempt_loop S P u (f @ ''.png'') 0 [] (screenshots st) e = (ok, n, errs, screenshots st', e')"
    and r: "scraped_urls st' = insert u (scraped_urls st)" "done_count st' = Suc (done_count st)"
    by blast
  from attempt_loop_0_cases[OF a] have "screenshots st \<le> screenshots st' \<and> screenshots st' \<le> Suc (screenshots st)"
    by (cases ok) simp_all
  with r show ?thesis by simp
qed

lemma iteration_metadata:
  assumes it: "iteration S P u st e = (Inr st', e')"
  shows "if u \<in> scraped_urls st then metadata st' = metadata st
         else (\<exists>r. timestamp r \<noteq> None \<and> metadata st' = dict_set u r (metadata st))"
proof (cases "u \<in> scraped_urls st")
  case True
  with it have "st' = st\<lparr>done_count := Suc (done_count st)\<rparr>" by (simp add: iteration_skip)
  then have "metadata st' = metadata st" by simp
  with True show ?thesis by simp
next
  case False
  from iteration_new[OF False it] obtain f ok errs where
    m: "metadata st' = dict_set u (frozen_result S u (f @ ''.png'') ok errs (world e')) (metadata st)"
    by blast
  have "timestamp (frozen_result S u (f @ ''.png'') ok errs (world e')) \<noteq> None"
    by (simp add: frozen_result_def)
  with m False show ?thesis by auto
qed

lemma iteration_keys:
  assumes it: "iteration S P u st e = (Inr st', e')"
    and k: "fst ` set (metadata st) = scraped_urls st"
  shows "fst ` set (metadata st') = scraped_urls st'"
proof -
  from iteration_counts[OF it] have s: "scraped_urls st' = insert u (scraped_urls st)" by simp
  show ?thesis
  proof (cases "u \<in> scraped_urls st")
    case True
    with iteration_metadata[OF it] have "metadata st' = metadata st" by simp
    with True s k show ?thesis by (simp add: insert_absorb)
  next
    case False
    with iteration_metadata[OF it] obtain r where "metadata st' = dict_set u r (metadata st)" by auto
    with s k show ?thesis by (simp add: keys_dict_set)
  qed
qed

lemma iteration_distinct:
  assumes it: "iteration S P u st e = (Inr st', e')"
    and d: "distinct (map fst (metadata st))"
  shows "distinct (map fst (metadata st'))"
proof (cases "u \<in> scraped_urls st")
  case True
  with iteration_metadata[OF it] d show ?thesis by simp
next
  case False
  with iteration_metadata[OF it] obtain r where "metadata st' = dict_set u r (metadata st)" by auto
  with d show ?thesis by (simp add: distinct_dict_set)
qed

lemma iteration_timestamps:
  assumes it: "iteration S P u st e = (Inr st', e')"
    and a: "\<forall>p\<in>set (metadata st). timestamp (snd p) \<noteq> None"
  shows "\<forall>p\<in>set (metadata st'). timestamp (snd p) \<noteq> None"
proof (cases "u \<in> scraped_urls st")
  case True
  with iteration_metadata[OF it] a show ?thesis by simp
next
  case False
  with iteration_metadata[OF it] obtain r where r: "timestamp r \<noteq> None" "metadata st' = dict_set u r (metadata st)"
    by auto
  show ?thesis
  proof
    fix p assume "p \<in> set (metadata st')"
    then have "(fst p, snd p) \<in> set (dict_set u r (metadata st))" using r by simp
    from values_dict_set[OF this] have "snd p = r \<or> (fst p, snd p) \<in> set (metadata st)" .
    then show "timestamp (snd p) \<noteq> None"
    proof
      assume "snd p = r" with r show ?thesis by simp
    next
      assume "(fst p, snd p) \<in> set (metadata st)"
      then have "p \<in> set (metadata st)" by simp
      with a show ?thesis by blast
    qed
  qed
qed

lemma iteration_stable:
  assumes it: "iteration S P u st e = (Inr st', e')"
    and v: "v \<in> scraped_urls st"
  shows "map_of (metadata st') v = map_of (metadata st) v"
proof (cases "u \<in> scraped_urls st")
  case True
  with iteration_metadata[OF it] show ?thesis by simp
next
  case False
  with v have "v \<noteq> u" by auto
  moreover from False iteration_metadata[OF it] obtain r where "metadata st' = dict_set u r (metadata st)" by auto
  ultimately show ?thesis by (simp add: map_of_dict_set)
qed

section \<open>Properties of the outer loop\<close>

lemma loop_head_Cons:
  "loop_head S P (u # us) st e (Suc k) =
     (if interrupted S (world e) then None
      else (case iteration S P u st e of
              (Inl x, e') \<Rightarrow> None
            | (Inr st', e') \<Rightarrow> loop_head S P us st' e' k))"
proof (induction k)
  case 0
  show ?case by (simp add: loop_head.simps(2) split: prod.splits sum.splits)
next
  case (Suc k)
  show ?case
  proof (cases "interrupted S (world e)")
    case True
    with Suc have "loop_head S P (u # us) st e (Suc k) = None" by simp
    then have "loop_head S P (u # us) st e (Suc (Suc k)) = None" by (simp add: loop_head.simps(2)[of _ _ _ _ _ "Suc k"])
    with True show ?thesis by simp
  next
    case False
    obtain x e' where it: "iteration S P u st e = (x, e')" by (cases "iteration S P u st e")
    show ?thesis
    proof (cases x)
      case (Inl a)
      with Suc False it have "loop_head S P (u # us) st e (Suc k) = None" by simp
      then have "loop_head S P (u # us) st e (Suc (Suc k)) = None" by (simp add: loop_head.simps(2)[of _ _ _ _ _ "Suc k"])
      with False it Inl show ?thesis by simp
    next
      case (Inr st')
      with Suc False it have h: "loop_head S P (u # us) st e (Suc k) = loop_head S P us st' e' k" by simp
      have "loop_head S P (u # us) st e (Suc (Suc k)) =
        (case loop_head S P (u # us) st e (Suc k) of None \<Rightarrow> None
         | Some (st1, e1) \<Rightarrow>
           (if Suc k < length (u # us) \<and> \<not> interrupted S (world e1) then
             (case iteration S P ((u # us) ! Suc k) st1 e1 of
                (Inl x, e2) \<Rightarrow> None
              | (Inr st2, e2) \<Rightarrow> Some (st2, e2))
           else None))"
        by (rule loop_head.simps(2))
      also have "\<dots> = loop_head S P us st' e' (Suc k)"
        by (simp add: h loop_head.simps(2)[of S P us st' e' k] split: option.splits)
      finally show ?thesis using False it Inr by simp
    qed
  qed
qed

lemma loop_head_prev:
  assumes "loop_head S P us st0 e0 (Suc k) = Some (st', e')"
  shows "\<exists>st e. loop_head S P us st0 e0 k = Some (st, e) \<and> k < length us \<and>
           \<not> interrupted S (world e) \<and> iteration S P (us ! k) st e = (Inr st', e')"
  using assms by (auto simp: loop_head.simps(2) split: option.splits if_splits prod.splits sum.splits)

lemma loop_head_bound: "loop_head S P us st0 e0 k = Some (st, e) \<Longrightarrow> k \<le> length us"
  by (cases k) (auto dest: loop_head_prev)

lemma loop_head_counts:
  "loop_head S P us st0 e0 k = Some (st, e) \<Longrightarrow>
     done_count st = done_count st0 + k \<and> screenshots st0 \<le> screenshots st \<and>
     screenshots st \<le> screenshots st0 + k \<and>
     scraped_urls st = scraped_urls st0 \<union> set (take k us) \<and>
     metadata_json e = metadata_json e0 \<and> prefix (staged_files e0) (staged_files e)"
proof (induction k arbitrary: st e)
  case 0
  then show ?case by simp
next
  case (Suc k)
  from loop_head_prev[OF Suc.prems] obtain st1 e1 where
    h: "loop_head S P us st0 e0 k = Some (st1, e1)" and k: "k < length us"
    and it: "iteration S P (us ! k) st1 e1 = (Inr st, e)" by blast
  note ih = Suc.IH[OF h]
  note c = iteration_counts[OF it]
  note en = iteration_env[OF it]
  have "set (take (Suc k) us) = insert (us ! k) (set (take k us))"
    using k by (simp add: take_Suc_conv_app_nth)
  moreover have "prefix (staged_files e0) (staged_files e)"
    using ih en by (meson prefix_order.order_trans)
  ultimately show ?case using ih c en by auto
qed

lemma loop_head_metadata:
  assumes "loop_head S P us st0 e0 k = Some (st, e)"
    and "fst ` set (metadata st0) = scraped_urls st0"
    and "distinct (map fst (metadata st0))"
    and "\<forall>p\<in>set (metadata st0). timestamp (snd p) \<noteq> None"
  shows "fst ` set (metadata st) = scraped_urls st \<and> distinct (map fst (metadata st)) \<and>
     (\<forall>p\<in>set (metadata st). timestamp (snd p) \<noteq> None)"
  using assms(1)
proof (induction k arbitrary: st e)
  case 0
  with assms(2-4) show ?case by simp
next
  case (Suc k)
  from loop_head_prev[OF Suc.prems] obtain st1 e1 where
    h: "loop_head S P us st0 e0 k = Some (st1, e1)"
    and it: "iteration S P (us ! k) st1 e1 = (Inr st, e)" by blast
  note ih = Suc.IH[OF h]
  from ih iteration_keys[OF it] iteration_distinct[OF it] iteration_timestamps[OF it]
  show ?case by blast
qed

lemma loop_head_stable:
  assumes "loop_head S P us st0 e0 k = Some (st, e)"
    and "loop_head S P us st0 e0 (k + d) = Some (st', e')"
    and "v \<in> scraped_urls st"
  shows "v \<in> scraped_urls st' \<and> map_of (metadata st') v = map_of (metadata st) v"
  using assms(2)
proof (induction d arbitrary: st' e')
  case 0
  with assms(1,3) show ?case by simp
next
  case (Suc d)
  then have "loop_head S P us st0 e0 (Suc (k + d)) = Some (st', e')" by simp
  from loop_head_prev[OF this] obtain st1 e1 where
    h: "loop_head S P us st0 e0 (k + d) = Some (st1, e1)"
    and it: "iteration S P (us ! (k + d)) st1 e1 = (Inr st', e')" by blast
  note ih = Suc.IH[OF h]
  from ih iteration_counts[OF it] iteration_stable[OF it, of v] show ?case by simp
qed

lemma capture_loop_from_head:
  "loop_head S P us st0 e0 k = Some (st, e) \<Longrightarrow>
     capture_loop S P us st0 e0 = capture_loop S P (drop k us) st e"
proof (induction us arbitrary: st0 e0 k)
  case Nil
  from loop_head_bound[OF Nil] have "k = 0" by simp
  with Nil show ?case by simp
next
  case (Cons u us)
  show ?case
  proof (cases k)
    case 0
    with Cons.prems show ?thesis by simp
  next
    case (Suc j)
    with Cons.prems have h: "loop_head S P (u # us) st0 e0 (Suc j) = Some (st, e)" by simp
    then have ni: "\<not> interrupted S (world e0)"
      by (cases "interrupted S (world e0)") (simp_all add: loop_head_Cons)
    obtain x e1 where it: "iteration S P u st0 e0 = (x, e1)" by (cases "iteration S P u st0 e0")
    from h ni it obtain st1 where x: "x = Inr st1" and h1: "loop_head S P us st1 e1 j = Some (st, e)"
      by (cases x) (simp_all add: loop_head_Cons)
    from Cons.IH[OF h1] ni it x Suc show ?thesis by simp
  qed
qed

lemma capture_loop_Inr_head:
  "capture_loop S P us st0 e0 = (Inr st, e) \<longleftrightarrow> loop_head S P us st0 e0 (length us) = Some (st, e)"
proof (induction us arbitrary: st0 e0)
  case Nil
  show ?case by auto
next
  case (Cons u us)
  obtain x e1 where it: "iteration S P u st0 e0 = (x, e1)" by (cases "iteration S P u st0 e0")
  have "length (u # us) = Suc (length us)" by simp
  then show ?case using Cons[of _ e1] it
    by (cases x; cases "interrupted S (world e0)") (simp_all add: loop_head_Cons)
qed

lemma capture_loop_env:
  "capture_loop S P us st e = (x, e') \<Longrightarrow>
     metadata_json e' = metadata_json e \<and> prefix (staged_files e) (staged_files e')"
proof (induction us arbitrary: st e)
  case Nil
  then show ?case by simp
next
  case (Cons u us)
  show ?case
  proof (cases "interrupted S (world e)")
    case True
    with Cons.prems show ?thesis by simp
  next
    case False
    obtain y e1 where it: "iteration S P u st e = (y, e1)" by (cases "iteration S P u st e")
    note en = iteration_env[OF it]
    show ?thesis
    proof (cases y)
      case (Inl a)
      with Cons.prems False it en show ?thesis by simp
    next
      case (Inr st1)
      with Cons.prems False it have "capture_loop S P us st1 e1 = (x, e')" by simp
      from Cons.IH[OF this] en show ?thesis by (auto intro: prefix_order.order_trans)
    qed
  qed
qed

section \<open>Query validation\<close>

lemma validate_query_cases:
  "validate_query is_url max_sites query =
     (if query ''query'' = None \<or> query ''query'' = Some [] then
        Inl (QueryParametersException ''Please provide a List of urls.'')
      else if max_sites < int (length (preprocess is_url (query_text query))) then
        Inl (QueryParametersException
                  (''You cannot collect more than '' @ str_of_int max_sites
                     @ '' screenshots per dataset. If you have more URLs, consider limiting your dataset first by either decreasing the resolution (i.e. fewer screenshots per year) or the length of the dataset (i.e. covering a shorter period of time).''))
      else if preprocess is_url (query_text query) = [] then
        Inl (QueryParametersException ''No valid URLs provided - please enter one valid URL per line.'')
      else Inr ((map_option Text \<circ> query)
                  (''query'' \<mapsto> UrlList (map detoolbar (preprocess is_url (query_text query))))))"
  by (simp add: validate_query_def Let_def)

text \<open>
  Claim C6: \<open>validate_query\<close> raises \<open>QueryParametersException\<close> exactly when the raw
  input is missing or empty, when no token survives the URL check, or when more tokens
  survive than \<open>max_sites\<close> allows. For every other input it returns the query with the
  key \<open>query\<close> bound to the rewritten survivors, and it raises nothing else.
\<close>

theorem validate_query_raises_iff:
  "((\<exists>msg. validate_query is_url max_sites query = Inl (QueryParametersException msg)) \<longleftrightarrow>
      (query ''query'' = None \<or> query ''query'' = Some [] \<or>
       preprocess is_url (query_text query) = [] \<or>
       max_sites < int (length (preprocess is_url (query_text query)))))
   \<and> ((\<forall>msg. validate_query is_url max_sites query \<noteq> Inl (QueryParametersException msg)) \<longrightarrow>
        validate_query is_url max_sites query =
          Inr ((map_option Text \<circ> query)
                 (''query'' \<mapsto> UrlList (map detoolbar (preprocess is_url (query_text query))))))"
  by (simp add: validate_query_cases)

lemma sample_tokens:
  "tokens ''https://a.com
https://a.com,not a url, https://b.com '' = [''https://a.com'', ''https://a.com'', ''not a url'', ''https://b.com'']"
  by (simp add: tokens_def strip_def isspace_def)

lemma sample_preprocess:
  "preprocess sample_is_url ''https://a.com
https://a.com,not a url, https://b.com '' = [''https://a.com'', ''https://a.com'', ''https://b.com'']"
  by (simp add: preprocess_def sample_tokens sample_is_url_def)

lemma detoolbar_plain: "detoolbar ''https://a.com'' = ''https://a.com''" "detoolbar ''https://b.com'' = ''https://b.com''"
  by (simp_all add: detoolbar_def match_at_def)

theorem validate_query_raises_iff_witness:
  "validate_query sample_is_url 10 [''query'' \<mapsto> ''https://a.com
https://a.com,not a url, https://b.com ''] =
     Inr [''query'' \<mapsto> UrlList [''https://a.com'', ''https://a.com'', ''https://b.com'']]
   \<and> (\<exists>msg. validate_query sample_is_url 2 [''query'' \<mapsto> ''https://a.com
https://a.com,not a url, https://b.com ''] = Inl (QueryParametersException msg))
   \<and> (\<exists>msg. validate_query sample_is_url 10 [''query'' \<mapsto> ''not a url''] = Inl (QueryParametersException msg))"
  using validate_query_raises_iff[of sample_is_url 10 "[''query'' \<mapsto> ''https://a.com
https://a.com,not a url, https://b.com '']"]
    validate_query_raises_iff[of sample_is_url 2 "[''query'' \<mapsto> ''https://a.com
https://a.com,not a url, https://b.com '']"]
    validate_query_raises_iff[of sample_is_url 10 "[''query'' \<mapsto> ''not a url'']"]
  by (simp add: query_text_def sample_preprocess detoolbar_plain fun_eq_iff preprocess_def tokens_def strip_def isspace_def sample_is_url_def)

section \<open>The preprocessor output\<close>



lemma archive_detoolbar:
  "detoolbar ''https://web.archive.org/web/2020/http://a.com'' =
     ''https://web.archive.org/web/2020if_/http://a.com''"
  by (simp add: detoolbar_def match_at_def isdigit_def)




theorem detoolbar_idem_witness:
  "detoolbar (detoolbar ''https://web.archive.org/web/2020/http://a.com'') =
     ''https://web.archive.org/web/2020if_/http://a.com''"
  using detoolbar_idem[of "''https://web.archive.org/web/2020/http://a.com''"]
  by (simp add: archive_detoolbar)

section \<open>The scenarios, evaluated\<close>

lemma plain_filename:
  "\<not> contains ''web.archive.org/web/'' u \<Longrightarrow>
     filename_from_url h d ts u = Inr (d u @ ''-'' @ ts @ ''-'' @ h u)"
  by (simp add: filename_from_url_def)

lemma scripted_filename:
  "\<not> contains ''web.archive.org/web/'' u \<Longrightarrow>
     filename_from_url (url_to_hash (scripted nav moved shot intr))
        (get_domain_name (scripted nav moved shot intr))
        (strftime_now (scripted nav moved shot intr) w) u
       = Inr (''site-20240101000000-'' @ filter (\<lambda>c. c \<noteq> CHR ''/'' \<and> c \<noteq> CHR '':'') u)"
  by (simp add: plain_filename scripted_def)

lemma scripted_attempt:
  "attempt (scripted nav moved shot intr) viewport u f n w =
     (case nav w of
        Some m \<Rightarrow> (Some (''Attempt '' @ str_of_nat n @ '': '' @ m), Suc w)
      | None \<Rightarrow>
          if moved (Suc w) then
            (case shot (Suc w) of
               Some m \<Rightarrow> (Some (''Attempt '' @ str_of_nat n @ '': '' @ m), Suc w)
             | None \<Rightarrow> (None, Suc w))
          else (Some ''Driver was not able to navigate to page'', Suc w))"
  by (simp add: attempt_def scripted_def viewport_def split: option.splits)

lemma iteration_fresh:
  assumes "u \<notin> scraped_urls st"
    and "filename_from_url (url_to_hash S) (get_domain_name S) (strftime_now S (world e)) u = Inr f"
    and "attempt_loop S P u (f @ ''.png'') 0 [] (screenshots st) e = (ok, n, errs, shots, e')"
  shows "iteration S P u st e =
     (Inr (st\<lparr>scraped_urls := insert u (scraped_urls st), screenshots := shots,
               metadata := dict_set u (frozen_result S u (f @ ''.png'') ok errs (world e')) (metadata st),
               done_count := Suc (done_count st)\<rparr>), e')"
  using assms by (simp add: iteration_def capture_url_def record_result_def)

lemma str_of_nat_small: "str_of_nat (Suc 0) = ''1''" "str_of_nat (Suc (Suc 0)) = ''2''"
  by (simp_all add: str_of_nat.simps)

lemma smooth_iteration:
  assumes "u \<notin> scraped_urls st" and "\<not> contains ''web.archive.org/web/'' u"
  shows "iteration (scripted (\<lambda>n. None) (\<lambda>n. True) (\<lambda>n. None) intr) viewport u st e =
     (Inr (st\<lparr>scraped_urls := insert u (scraped_urls st), screenshots := Suc (screenshots st),
               metadata := dict_set u
                 \<lparr>url = u,
                  filename = ''site-20240101000000-'' @ filter (\<lambda>c. c \<noteq> CHR ''/'' \<and> c \<noteq> CHR '':'') u @ ''.png'',
                  timestamp = Some (1700000000 + int (Suc (world e))), error = [],
                  final_url = Some ''https://landing.example/'', subject = Some ''Example Domain''\<rparr>
                 (metadata st),
               done_count := Suc (done_count st)\<rparr>),
      e\<lparr>world := Suc (world e),
        staged_files := staged_files e
          @ [''site-20240101000000-'' @ filter (\<lambda>c. c \<noteq> CHR ''/'' \<and> c \<noteq> CHR '':'') u @ ''.png'']\<rparr>)"
proof -
  have a: "attempt_loop (scripted (\<lambda>n. None) (\<lambda>n. True) (\<lambda>n. None) intr) viewport u
      ((''site-20240101000000-'' @ filter (\<lambda>c. c \<noteq> CHR ''/'' \<and> c \<noteq> CHR '':'') u) @ ''.png'') 0 [] (screenshots st) e
    = (True, Suc 0, [], Suc (screenshots st), e\<lparr>world := Suc (world e),
        staged_files := staged_files e
          @ [(''site-20240101000000-'' @ filter (\<lambda>c. c \<noteq> CHR ''/'' \<and> c \<noteq> CHR '':'') u) @ ''.png'']\<rparr>)"
    by (simp add: attempt_loop_0 scripted_attempt)
  have b: "filename_from_url (url_to_hash (scripted (\<lambda>n. None) (\<lambda>n. True) (\<lambda>n. None) intr)) (get_domain_name (scripted (\<lambda>n. None) (\<lambda>n. True) (\<lambda>n. None) intr))
      (strftime_now (scripted (\<lambda>n. None) (\<lambda>n. True) (\<lambda>n. None) intr) (world e)) u
      = Inr (''site-20240101000000-'' @ filter (\<lambda>c. c \<noteq> CHR ''/'' \<and> c \<noteq> CHR '':'') u)"
    using assms(2) by (simp add: scripted_filename)
  show ?thesis
    by (simp add: iteration_fresh[OF assms(1) b a] frozen_result_def)
       (simp add: scripted_def)
qed

lemma steady_iteration:
  assumes "u \<notin> scraped_urls st" and "\<not> contains ''web.archive.org/web/'' u"
  shows "iteration steady_driver viewport u st e =
     (Inr (st\<lparr>scraped_urls := insert u (scraped_urls st), screenshots := Suc (screenshots st),
               metadata := dict_set u
                 \<lparr>url = u,
                  filename = ''site-20240101000000-'' @ filter (\<lambda>c. c \<noteq> CHR ''/'' \<and> c \<noteq> CHR '':'') u @ ''.png'',
                  timestamp = Some (1700000000 + int (Suc (world e))), error = [],
                  final_url = Some ''https://landing.example/'', subject = Some ''Example Domain''\<rparr>
                 (metadata st),
               done_count := Suc (done_count st)\<rparr>),
      e\<lparr>world := Suc (world e),
        staged_files := staged_files e
          @ [''site-20240101000000-'' @ filter (\<lambda>c. c \<noteq> CHR ''/'' \<and> c \<noteq> CHR '':'') u @ ''.png'']\<rparr>)"
  using smooth_iteration[OF assms] by (simp add: steady_driver_def)

lemma interrupted_iteration:
  assumes "u \<notin> scraped_urls st" and "\<not> contains ''web.archive.org/web/'' u"
  shows "iteration interrupted_driver viewport u st e =
     (Inr (st\<lparr>scraped_urls := insert u (scraped_urls st), screenshots := Suc (screenshots st),
               metadata := dict_set u
                 \<lparr>url = u,
                  filename = ''site-20240101000000-'' @ filter (\<lambda>c. c \<noteq> CHR ''/'' \<and> c \<noteq> CHR '':'') u @ ''.png'',
                  timestamp = Some (1700000000 + int (Suc (world e))), error = [],
                  final_url = Some ''https://landing.example/'', subject = Some ''Example Domain''\<rparr>
                 (metadata st),
               done_count := Suc (done_count st)\<rparr>),
      e\<lparr>world := Suc (world e),
        staged_files := staged_files e
          @ [''site-20240101000000-'' @ filter (\<lambda>c. c \<noteq> CHR ''/'' \<and> c \<noteq> CHR '':'') u @ ''.png'']\<rparr>)"
  using smooth_iteration[OF assms] by (simp add: interrupted_driver_def)


lemma dead_iteration:
  assumes "u \<notin> scraped_urls st" and "\<not> contains ''web.archive.org/web/'' u"
  shows "iteration dead_driver viewport u st e =
     (Inr (st\<lparr>scraped_urls := insert u (scraped_urls st), screenshots := screenshots st,
               metadata := dict_set u
                 \<lparr>url = u,
                  filename = ''site-20240101000000-'' @ filter (\<lambda>c. c \<noteq> CHR ''/'' \<and> c \<noteq> CHR '':'') u @ ''.png'',
                  timestamp = Some (1700000000 + int (Suc (Suc (world e)))),
                  error = ''Attempt 1: timeout, Attempt 2: timeout'',
                  final_url = None, subject = None\<rparr>
                 (metadata st),
               done_count := Suc (done_count st)\<rparr>),
      e\<lparr>world := Suc (Suc (world e))\<rparr>)"
proof -
  have a: "attempt_loop dead_driver viewport u
      ((''site-20240101000000-'' @ filter (\<lambda>c. c \<noteq> CHR ''/'' \<and> c \<noteq> CHR '':'') u) @ ''.png'') 0 [] (screenshots st) e
    = (False, Suc (Suc 0), [''Attempt 1: timeout'', ''Attempt 2: timeout''], screenshots st,
       e\<lparr>world := Suc (Suc (world e))\<rparr>)"
    by (simp add: attempt_loop_0 dead_driver_def scripted_attempt str_of_nat_small)
  have b: "filename_from_url (url_to_hash dead_driver) (get_domain_name dead_driver)
      (strftime_now dead_driver (world e)) u
      = Inr (''site-20240101000000-'' @ filter (\<lambda>c. c \<noteq> CHR ''/'' \<and> c \<noteq> CHR '':'') u)"
    using assms(2) by (simp add: dead_driver_def scripted_filename)
  show ?thesis
    by (simp add: iteration_fresh[OF assms(1) b a] frozen_result_def)
       (simp add: dead_driver_def scripted_def)
qed

lemma scenario_interrupted:
  "interrupted steady_driver w = False" "interrupted flaky_driver w = False"
  "interrupted dead_driver w = False" "interrupted interrupted_driver w = (1 \<le> w)"
  by (simp_all add: steady_driver_def flaky_driver_def dead_driver_def interrupted_driver_def scripted_def)


section \<open>File names of archive snapshots\<close>

lemma split_nonempty: "split sep x \<noteq> []"
  by (induction x) (auto split: list.splits)

lemma not_prefix_head: "sep \<noteq> [] \<Longrightarrow> c \<noteq> hd sep \<Longrightarrow> \<not> prefix sep (c # x)"
  by (cases sep) auto

lemma split_skip:
  assumes "sep \<noteq> []" and "hd sep \<notin> set a"
  shows "split sep (a @ x) = (a @ hd (split sep x)) # tl (split sep x)"
  using assms(2)
proof (induction a)
  case Nil
  then show ?case using split_nonempty[of sep x] by simp
next
  case (Cons c a)
  then have "\<not> prefix sep (c # a @ x)" using not_prefix_head[OF assms(1)] by auto
  with Cons show ?case by simp
qed

lemma split_at_sep: "sep \<noteq> [] \<Longrightarrow> split sep (sep @ x) = [] # split sep x"
proof -
  assume n: "sep \<noteq> []"
  then obtain c cs where s: "sep = c # cs" by (cases sep) auto
  have "split sep ((c # cs) @ x) = [] # split sep (drop (length (c # cs) - 1) (cs @ x))"
    using n by (simp add: s)
  then show ?thesis by (simp add: s)
qed

lemma split_cut:
  assumes "sep \<noteq> []" and "hd sep \<notin> set a"
  shows "split sep (a @ sep @ x) = a # split sep x"
  by (simp add: split_skip[OF assms] split_at_sep[OF assms(1)])

lemma split_none: "sep \<noteq> [] \<Longrightarrow> \<not> contains sep x \<Longrightarrow> split sep x = [x]"
  by (induction x) auto

lemma contains_skip:
  assumes "sep \<noteq> []" and "hd sep \<notin> set a"
  shows "contains sep (a @ x) = contains sep x"
  using assms(2)
proof (induction a)
  case Nil
  then show ?case by simp
next
  case (Cons c a)
  then have "\<not> prefix sep (c # a @ x)" using not_prefix_head[OF assms(1)] by auto
  with Cons show ?case by simp
qed

lemma contains_prefix: "prefix sep x \<Longrightarrow> contains sep x"
  by (cases x) auto

lemma contains_later: "contains sep x \<Longrightarrow> contains sep (a @ x)"
  by (induction a) auto

lemma contains_at: "contains sep (a @ sep @ x)"
  by (rule contains_later) (simp add: contains_prefix)

lemma replace_skip:
  assumes "old \<noteq> []" and "hd old \<notin> set a"
  shows "replace old new (a @ x) = a @ replace old new x"
  using assms(2)
proof (induction a)
  case Nil
  then show ?case by simp
next
  case (Cons c a)
  then have "\<not> prefix old (c # a @ x)" using not_prefix_head[OF assms(1)] by auto
  with Cons show ?case by simp
qed

lemma dropWhile_none: "\<forall>c\<in>set xs. \<not> P c \<Longrightarrow> dropWhile P xs = xs"
  by (cases xs) auto

lemma strip_chars_none: "\<forall>c\<in>set s. c \<notin> set cs \<Longrightarrow> strip_chars cs s = s"
  by (simp add: strip_chars_def dropWhile_none)

lemma isdigit_chars:
  assumes "isdigit c"
  shows "c \<noteq> CHR ''w''" "c \<noteq> CHR ''/''" "c \<noteq> CHR '':''" "c \<noteq> CHR ''i''"
  using assms by (auto simp: isdigit_def)

text \<open>The first field of the text behind the archived scheme, cut at the next slash.\<close>

lemma host_field:
  assumes h1: "CHR ''/'' \<notin> set host" and h2: "CHR '':'' \<notin> set host"
    and t: "rest = [] \<or> (\<exists>t. rest = CHR ''/'' # t)"
    and a: "CHR '':'' \<notin> set a"
  shows "index1 (split ''://'' (a @ ''://'' @ host @ rest)) = Inr (host @ hd (split ''://'' rest))"
    and "index0 (split ''/'' (host @ hd (split ''://'' rest))) = Inr host"
proof -
  have "split ''://'' (a @ ''://'' @ host @ rest) = a # split ''://'' (host @ rest)"
    using a by (intro split_cut) simp_all
  also have "split ''://'' (host @ rest) = (host @ hd (split ''://'' rest)) # tl (split ''://'' rest)"
    using h2 by (intro split_skip) simp_all
  finally show "index1 (split ''://'' (a @ ''://'' @ host @ rest)) = Inr (host @ hd (split ''://'' rest))"
    by (simp add: index1_def)
  have "hd (split ''/'' (hd (split ''://'' rest))) = []"
  proof (cases rest)
    case Nil
    then show ?thesis by simp
  next
    case (Cons c r)
    with t have c: "c = CHR ''/''" by auto
    obtain f fs where "split ''://'' r = f # fs" using split_nonempty[of "''://''" r] by (cases "split ''://'' r") auto
    then show ?thesis by (simp add: Cons c)
  qed
  moreover have "split ''/'' (host @ hd (split ''://'' rest)) =
      (host @ hd (split ''/'' (hd (split ''://'' rest)))) # tl (split ''/'' (hd (split ''://'' rest)))"
    using h1 by (intro split_skip) simp_all
  ultimately show "index0 (split ''/'' (host @ hd (split ''://'' rest))) = Inr host"
    by (simp add: index0_def)
qed


text \<open>
  Claim C8: for a snapshot URL, that is a prefix without \<open>w\<close> (such as \<open>https://\<close>),
  \<open>web.archive.org/web/\<close>, a digit timestamp with or without the \<open>if_\<close> marker, a slash and
  an archived URL made of a scheme, \<open>://\<close>, a host and nothing or a path, the file name is
  the archived host with the suffix \<open>-archived\<close>, the snapshot's timestamp without the
  marker, and the hash of the whole URL. The clock reading and the domain lookup of the
  archive host do not enter it.
\<close>

theorem filename_from_url_archive:
  assumes pre: "CHR ''w'' \<notin> set pre"
    and ds: "\<forall>c\<in>set ds. isdigit c"
    and mk: "mk = [] \<or> mk = ''if_''"
    and sch: "CHR '':'' \<notin> set sch"
    and h1: "CHR ''/'' \<notin> set host" and h2: "CHR '':'' \<notin> set host"
    and rest: "rest = [] \<or> (\<exists>t. rest = CHR ''/'' # t)"
    and once: "\<not> contains ''web.archive.org/web/'' (sch @ ''://'' @ host @ rest)"
  shows "filename_from_url h d now_str
           (pre @ ''web.archive.org/web/'' @ ds @ mk @ ''/'' @ sch @ ''://'' @ host @ rest)
         = Inr (host @ ''-archived-'' @ ds @ ''-''
                 @ h (pre @ ''web.archive.org/web/'' @ ds @ mk @ ''/'' @ sch @ ''://'' @ host @ rest))"
proof -
  let ?W = "''web.archive.org/web/''"
  let ?s = "ds @ mk @ ''/'' @ sch @ ''://'' @ host @ rest"
  let ?u = "pre @ ?W @ ?s"
  have dw: "CHR ''w'' \<notin> set ds" using ds isdigit_chars(1) by blast
  have dsl: "CHR ''/'' \<notin> set ds" using ds isdigit_chars(2) by blast
  have dc: "CHR '':'' \<notin> set ds" using ds isdigit_chars(3) by blast
  have di: "CHR ''i'' \<notin> set ds" using ds isdigit_chars(4) by blast
  have mw: "CHR ''w'' \<notin> set mk" and msl: "CHR ''/'' \<notin> set mk" and mc: "CHR '':'' \<notin> set mk"
    using mk by auto
  have c: "contains ?W ?u" by (rule contains_at)
  have "contains ?W ((ds @ mk @ ''/'') @ sch @ ''://'' @ host @ rest)
          = contains ?W (sch @ ''://'' @ host @ rest)"
    using dw mw by (intro contains_skip) simp_all
  with once have n: "\<not> contains ?W ?s" by simp
  have "split ?W ?u = pre # split ?W ?s"
    using pre by (intro split_cut) simp_all
  with n have 1: "index1 (split ?W ?u) = Inr ?s"
    by (simp add: split_none index1_def)
  have "split ''/'' ((ds @ mk) @ ''/'' @ sch @ ''://'' @ host @ rest)
          = (ds @ mk) # split ''/'' (sch @ ''://'' @ host @ rest)"
    using dsl msl by (intro split_cut) simp_all
  then have 2: "index0 (split ''/'' ?s) = Inr (ds @ mk)" by (simp add: index0_def)
  have "CHR '':'' \<notin> set (ds @ mk @ ''/'' @ sch)" using dc mc sch by simp
  from host_field[OF h1 h2 rest this]
  have 3: "index1 (split ''://'' ?s) = Inr (host @ hd (split ''://'' rest))"
    and 4: "index0 (split ''/'' (host @ hd (split ''://'' rest))) = Inr host"
    by simp_all
  have "replace ''if_'' [] (ds @ mk) = ds @ replace ''if_'' [] mk"
    using di by (intro replace_skip) simp_all
  with mk have 5: "replace ''if_'' [] (ds @ mk) = ds" by auto
  have 6: "strip_chars ''/'' host = host" using h1 by (intro strip_chars_none) auto
  have "filename_from_url h d now_str ?u = Inr ((host @ ''-archived'') @ ''-'' @ ds @ ''-'' @ h ?u)"
    unfolding filename_from_url_def Let_def by (simp only: c if_True 1 2 3 4 5 6 sum.case)
  then show ?thesis by simp
qed

theorem filename_from_url_archive_witness:
  "filename_from_url (url_to_hash steady_driver) (get_domain_name steady_driver) ''20240101000000''
      ''https://web.archive.org/web/20200101120000/https://example.com''
     = Inr ''example.com-archived-20200101120000-httpsweb.archive.orgweb20200101120000httpsexample.com''
   \<and> filename_from_url (url_to_hash steady_driver) (get_domain_name steady_driver) ''20240101000000''
      ''https://web.archive.org/web/20200101120000if_/https://example.com''
     = Inr ''example.com-archived-20200101120000-httpsweb.archive.orgweb20200101120000if_httpsexample.com''"
  using filename_from_url_archive[of "''https://''" "''20200101120000''" "[]" "''https''" "''example.com''" "[]"
          "url_to_hash steady_driver" "get_domain_name steady_driver" "''20240101000000''"]
    filename_from_url_archive[of "''https://''" "''20200101120000''" "''if_''" "''https''" "''example.com''" "[]"
          "url_to_hash steady_driver" "get_domain_name steady_driver" "''20240101000000''"]
  by (simp add: isdigit_def steady_driver_def scripted_def)

section \<open>The result recorded for one URL\<close>






section \<open>A URL whose navigation always fails\<close>






section \<open>Interruption\<close>

lemma filename_from_url_Inl: "filename_from_url h d ts u = Inl x \<Longrightarrow> x = IndexError"
  by (auto simp: filename_from_url_def index1_def index0_def Let_def
        split: if_splits sum.splits list.splits)

lemma iteration_Inl: "iteration S P u st e = (Inl x, e') \<Longrightarrow> x = IndexError"
  by (auto simp: iteration_def capture_url_def dest: filename_from_url_Inl
        split: if_splits sum.splits prod.splits)

lemma capture_loop_interrupted:
  "capture_loop S P us st e = (Inl (ProcessorInterruptedException m), e') \<Longrightarrow>
     \<exists>k st'. k < length us \<and> loop_head S P us st e k = Some (st', e') \<and> interrupted S (world e')"
proof (induction us arbitrary: st e)
  case Nil
  then show ?case by simp
next
  case (Cons u us)
  show ?case
  proof (cases "interrupted S (world e)")
    case True
    with Cons.prems have "e' = e" by simp
    with True have "0 < length (u # us) \<and> loop_head S P (u # us) st e 0 = Some (st, e') \<and>
        interrupted S (world e')" by simp
    then show ?thesis by blast
  next
    case False
    obtain y e1 where it: "iteration S P u st e = (y, e1)" by (cases "iteration S P u st e")
    show ?thesis
    proof (cases y)
      case (Inl a)
      with it have "a = IndexError" by (auto dest: iteration_Inl)
      with Cons.prems False it Inl show ?thesis by simp
    next
      case (Inr st1)
      with Cons.prems False it have "capture_loop S P us st1 e1 = (Inl (ProcessorInterruptedException m), e')"
        by simp
      from Cons.IH[OF this] obtain k st' where
        k: "k < length us" "loop_head S P us st1 e1 k = Some (st', e')" "interrupted S (world e')"
        by blast
      from k(2) False it Inr have "loop_head S P (u # us) st e (Suc k) = Some (st', e')"
        by (simp add: loop_head_Cons)
      with k(1,3) have "Suc k < length (u # us) \<and> loop_head S P (u # us) st e (Suc k) = Some (st', e') \<and>
        interrupted S (world e')" by simp
      then show ?thesis by blast
    qed
  qed
qed

lemma get_items_Inl: "get_items S P us e0 = (Inl x, e') \<longleftrightarrow> capture_loop S P us initial_locals e0 = (Inl x, e')"
  by (auto simp: get_items_def split: prod.splits sum.splits)

lemma get_items_Inr:
  "get_items S P us e0 = (Inr st, e') \<longleftrightarrow>
     (\<exists>e. loop_head S P us initial_locals e0 (length us) = Some (st, e) \<and>
          e' = e\<lparr>metadata_json := Some (metadata st)\<rparr>)"
  by (auto simp: get_items_def capture_loop_Inr_head[symmetric] split: prod.splits sum.splits)

lemma initial_locals_simps:
  "screenshots initial_locals = 0" "done_count initial_locals = 0"
  "scraped_urls initial_locals = {}" "metadata initial_locals = []"
  by (simp_all add: initial_locals_def)

text \<open>
  Claim C2, as the code has it: the interruption flag is read at the head of the outer loop,
  before each URL; when it is set there, \<open>get_items\<close> raises
  \<open>ProcessorInterruptedException\<close> at once and only then. The staging area is left as it
  is at that point, so the screenshot files saved so far stay. The metadata document is
  written only when the loop completes: after an interruption none has been written and
  the collected results are lost with the local variables.
\<close>

theorem interruption_aborts:
  "(loop_head S P us initial_locals e0 k = Some (st, e) \<and> k < length us \<and> interrupted S (world e) \<longrightarrow>
      get_items S P us e0 =
        (Inl (ProcessorInterruptedException ''Interrupted while making screenshots''), e) \<and>
      metadata_json e = metadata_json e0 \<and> prefix (staged_files e0) (staged_files e))
   \<and> (get_items S P us e0 = (Inl (ProcessorInterruptedException m), e') \<longrightarrow>
        (\<exists>j st'. j < length us \<and> loop_head S P us initial_locals e0 j = Some (st', e') \<and>
                 interrupted S (world e')) \<and>
        metadata_json e' = metadata_json e0)
   \<and> (get_items S P us e0 = (Inr st'', e'') \<longrightarrow> metadata_json e'' = Some (metadata st''))"
proof (intro conjI impI)
  assume a: "loop_head S P us initial_locals e0 k = Some (st, e) \<and> k < length us \<and> interrupted S (world e)"
  then have h: "loop_head S P us initial_locals e0 k = Some (st, e)" and k: "k < length us"
    and i: "interrupted S (world e)" by simp_all
  from k have d: "drop k us = us ! k # drop (Suc k) us" by (simp add: Cons_nth_drop_Suc)
  have "capture_loop S P us initial_locals e0 = capture_loop S P (drop k us) st e"
    by (rule capture_loop_from_head[OF h])
  also have "\<dots> = (Inl (ProcessorInterruptedException ''Interrupted while making screenshots''), e)"
    using i by (simp add: d)
  finally show "get_items S P us e0 =
        (Inl (ProcessorInterruptedException ''Interrupted while making screenshots''), e)"
    by (simp add: get_items_def)
  from loop_head_counts[OF h]
  show "metadata_json e = metadata_json e0" and "prefix (staged_files e0) (staged_files e)"
    by simp_all
next
  assume "get_items S P us e0 = (Inl (ProcessorInterruptedException m), e')"
  then have c: "capture_loop S P us initial_locals e0 = (Inl (ProcessorInterruptedException m), e')"
    by (simp add: get_items_Inl)
  from capture_loop_interrupted[OF c]
  show "\<exists>j st'. j < length us \<and> loop_head S P us initial_locals e0 j = Some (st', e') \<and>
                 interrupted S (world e')" .
  from capture_loop_env[OF c] show "metadata_json e' = metadata_json e0" by simp
next
  assume "get_items S P us e0 = (Inr st'', e'')"
  then obtain e1 where "e'' = e1\<lparr>metadata_json := Some (metadata st'')\<rparr>"
    by (auto simp: get_items_Inr)
  then show "metadata_json e'' = Some (metadata st'')" by simp
qed

lemma interrupted_head_1:
  "loop_head interrupted_driver viewport [''https://a.com'', ''https://b.com''] initial_locals empty_env (Suc 0) =
     Some (\<lparr>screenshots = 1, done_count = 1, scraped_urls = {''https://a.com''},
            metadata = [(''https://a.com'',
              \<lparr>url = ''https://a.com'', filename = ''site-20240101000000-httpsa.com.png'',
               timestamp = Some 1700000001, error = [],
               final_url = Some ''https://landing.example/'', subject = Some ''Example Domain''\<rparr>)]\<rparr>,
           \<lparr>world = 1, staged_files = [''site-20240101000000-httpsa.com.png''], metadata_json = None\<rparr>)"
  by (simp add: loop_head_Cons scenario_interrupted interrupted_iteration initial_locals_def empty_env_def)

theorem interruption_aborts_witness:
  "loop_head interrupted_driver viewport [''https://a.com'', ''https://b.com''] initial_locals empty_env (Suc 0) =
     Some (\<lparr>screenshots = 1, done_count = 1, scraped_urls = {''https://a.com''},
            metadata = [(''https://a.com'',
              \<lparr>url = ''https://a.com'', filename = ''site-20240101000000-httpsa.com.png'',
               timestamp = Some 1700000001, error = [],
               final_url = Some ''https://landing.example/'', subject = Some ''Example Domain''\<rparr>)]\<rparr>,
           \<lparr>world = 1, staged_files = [''site-20240101000000-httpsa.com.png''], metadata_json = None\<rparr>)
   \<and> interrupted interrupted_driver 1
   \<and> get_items interrupted_driver viewport [''https://a.com'', ''https://b.com''] empty_env =
        (Inl (ProcessorInterruptedException ''Interrupted while making screenshots''),
         \<lparr>world = 1, staged_files = [''site-20240101000000-httpsa.com.png''], metadata_json = None\<rparr>)"
  using interruption_aborts[of interrupted_driver viewport "[''https://a.com'', ''https://b.com'']" empty_env "Suc 0"
      "\<lparr>screenshots = 1, done_count = 1, scraped_urls = {''https://a.com''},
            metadata = [(''https://a.com'',
              \<lparr>url = ''https://a.com'', filename = ''site-20240101000000-httpsa.com.png'',
               timestamp = Some 1700000001, error = [],
               final_url = Some ''https://landing.example/'', subject = Some ''Example Domain''\<rparr>)]\<rparr>"
      "\<lparr>world = 1, staged_files = [''site-20240101000000-httpsa.com.png''], metadata_json = None\<rparr>"]
  by (simp add: interrupted_head_1 scenario_interrupted)

text \<open>
  The scenario of the specification: five URLs, the job interrupted after the first one.
  The exception is raised, the first screenshot is in the staging area, and no metadata
  document has been written.
\<close>

theorem interrupted_batch_writes_no_metadata:
  "get_items interrupted_driver viewport
      [''https://a.com'', ''https://b.com'', ''https://c.com'', ''https://d.com'', ''https://e.com''] empty_env =
     (Inl (ProcessorInterruptedException ''Interrupted while making screenshots''),
      \<lparr>world = 1, staged_files = [''site-20240101000000-httpsa.com.png''], metadata_json = None\<rparr>)"
  by (simp add: get_items_def scenario_interrupted interrupted_iteration initial_locals_def empty_env_def)

section \<open>Duplicates, processed URLs and the counters\<close>

lemma loop_head_initial:
  assumes "loop_head S P us initial_locals e0 k = Some (st, e)"
  shows "done_count st = k" and "screenshots st \<le> k" and "scraped_urls st = set (take k us)"
    and "fst ` set (metadata st) = set (take k us)" and "distinct (map fst (metadata st))"
    and "\<forall>p\<in>set (metadata st). timestamp (snd p) \<noteq> None" and "k \<le> length us"
proof -
  from loop_head_counts[OF assms]
  show "done_count st = k" and "screenshots st \<le> k" and s: "scraped_urls st = set (take k us)"
    by (simp_all add: initial_locals_simps)
  have "fst ` set (metadata initial_locals) = scraped_urls initial_locals"
    "distinct (map fst (metadata initial_locals))"
    "\<forall>p\<in>set (metadata initial_locals). timestamp (snd p) \<noteq> None"
    by (simp_all add: initial_locals_simps)
  from loop_head_metadata[OF assms this] s
  show "fst ` set (metadata st) = set (take k us)" and "distinct (map fst (metadata st))"
    and "\<forall>p\<in>set (metadata st). timestamp (snd p) \<noteq> None"
    by simp_all
  show "k \<le> length us" by (rule loop_head_bound[OF assms])
qed

lemma capture_url_counts:
  assumes "capture_url S P u st e = (Inr (f, ok, errs, st1), e1)"
  shows "done_count st1 = done_count st" and "screenshots st1 \<le> Suc (screenshots st)"
    and "screenshots st \<le> screenshots st1" and "u \<in> scraped_urls st1"
proof -
  from assms obtain g where g: "filename_from_url (url_to_hash S) (get_domain_name S) (strftime_now S (world e)) u = Inr g"
    by (auto simp: capture_url_def split: sum.splits)
  obtain ok' n errs' shots e' where a: "attempt_loop S P u (g @ ''.png'') 0 [] (screenshots st) e = (ok', n, errs', shots, e')"
    using prod_cases5 by blast
  from assms g a have st1: "st1 = st\<lparr>scraped_urls := insert u (scraped_urls st), screenshots := shots\<rparr>"
    by (simp add: capture_url_def)
  from attempt_loop_0_cases[OF a] have "shots \<le> Suc (screenshots st) \<and> screenshots st \<le> shots"
    by (cases ok') simp_all
  then show "done_count st1 = done_count st" and "screenshots st1 \<le> Suc (screenshots st)"
    and "screenshots st \<le> screenshots st1" and "u \<in> scraped_urls st1"
    by (simp_all add: st1)
qed

text \<open>
  In the three theorems below a loop head is a state from which the rest of the loop runs:
  the first conjunct of each says that the loop from the start is the loop over the
  remaining URLs from that state.
\<close>

text \<open>
  Claim C5: at every head of the outer loop the result set has one entry per distinct URL
  seen so far; a URL that occurred before is skipped, which increments \<open>done\<close> and changes
  nothing else, neither the screenshot counter nor the result set nor the collaborators'
  world, so no capture is attempted; the entry made at the first occurrence is the one
  that stays; and the document written at the end has one entry per distinct input URL.
\<close>

theorem duplicates_skipped:
  assumes h: "loop_head S P us initial_locals e0 k = Some (st, e)"
  shows "capture_loop S P us initial_locals e0 = capture_loop S P (drop k us) st e
    \<and> distinct (map fst (metadata st)) \<and> fst ` set (metadata st) = set (take k us)
    \<and> (k < length us \<and> us ! k \<in> set (take k us) \<longrightarrow>
         iteration S P (us ! k) st e = (Inr (st\<lparr>done_count := Suc (done_count st)\<rparr>), e))
    \<and> (\<forall>d st' e'. loop_head S P us initial_locals e0 (k + d) = Some (st', e') \<longrightarrow>
          (\<forall>v\<in>set (take k us). map_of (metadata st') v = map_of (metadata st) v))
    \<and> (\<forall>st' e'. get_items S P us e0 = (Inr st', e') \<longrightarrow>
          distinct (map fst (metadata st')) \<and> fst ` set (metadata st') = set us \<and>
          metadata_json e' = Some (metadata st'))"
proof -
  note i = loop_head_initial[OF h]
  have 1: "k < length us \<and> us ! k \<in> set (take k us) \<longrightarrow>
         iteration S P (us ! k) st e = (Inr (st\<lparr>done_count := Suc (done_count st)\<rparr>), e)"
    using i(3) by (simp add: iteration_skip)
  have 2: "\<forall>d st' e'. loop_head S P us initial_locals e0 (k + d) = Some (st', e') \<longrightarrow>
          (\<forall>v\<in>set (take k us). map_of (metadata st') v = map_of (metadata st) v)"
    using loop_head_stable[OF h] i(3) by blast
  have 3: "\<forall>st' e'. get_items S P us e0 = (Inr st', e') \<longrightarrow>
          distinct (map fst (metadata st')) \<and> fst ` set (metadata st') = set us \<and>
          metadata_json e' = Some (metadata st')"
  proof (intro allI impI)
    fix st' e' assume "get_items S P us e0 = (Inr st', e')"
    then obtain e1 where l: "loop_head S P us initial_locals e0 (length us) = Some (st', e1)"
      and e: "e' = e1\<lparr>metadata_json := Some (metadata st')\<rparr>"
      by (auto simp: get_items_Inr)
    from loop_head_initial(4,5)[OF l] e
    show "distinct (map fst (metadata st')) \<and> fst ` set (metadata st') = set us \<and>
          metadata_json e' = Some (metadata st')" by simp
  qed
  from capture_loop_from_head[OF h] i(5,4) 1 2 3 show ?thesis by (intro conjI)
qed

lemma steady_head_1:
  "loop_head steady_driver viewport [''https://a.com'', ''https://a.com'', ''https://b.com''] initial_locals empty_env (Suc 0) =
     Some (\<lparr>screenshots = 1, done_count = 1, scraped_urls = {''https://a.com''},
            metadata = [(''https://a.com'',
              \<lparr>url = ''https://a.com'', filename = ''site-20240101000000-httpsa.com.png'',
               timestamp = Some 1700000001, error = [],
               final_url = Some ''https://landing.example/'', subject = Some ''Example Domain''\<rparr>)]\<rparr>,
           \<lparr>world = 1, staged_files = [''site-20240101000000-httpsa.com.png''], metadata_json = None\<rparr>)"
  by (simp add: loop_head_Cons scenario_interrupted steady_iteration initial_locals_def empty_env_def)

lemma steady_head_2:
  "loop_head steady_driver viewport [''https://a.com'', ''https://a.com'', ''https://b.com''] initial_locals empty_env (Suc (Suc 0)) =
     Some (\<lparr>screenshots = 1, done_count = 2, scraped_urls = {''https://a.com''},
            metadata = [(''https://a.com'',
              \<lparr>url = ''https://a.com'', filename = ''site-20240101000000-httpsa.com.png'',
               timestamp = Some 1700000001, error = [],
               final_url = Some ''https://landing.example/'', subject = Some ''Example Domain''\<rparr>)]\<rparr>,
           \<lparr>world = 1, staged_files = [''site-20240101000000-httpsa.com.png''], metadata_json = None\<rparr>)"
  by (simp add: loop_head_Cons scenario_interrupted steady_iteration iteration_skip initial_locals_def empty_env_def)

theorem duplicates_skipped_witness:
  "loop_head steady_driver viewport [''https://a.com'', ''https://a.com'', ''https://b.com''] initial_locals empty_env (Suc 0) =
     Some (\<lparr>screenshots = 1, done_count = 1, scraped_urls = {''https://a.com''},
            metadata = [(''https://a.com'',
              \<lparr>url = ''https://a.com'', filename = ''site-20240101000000-httpsa.com.png'',
               timestamp = Some 1700000001, error = [],
               final_url = Some ''https://landing.example/'', subject = Some ''Example Domain''\<rparr>)]\<rparr>,
           \<lparr>world = 1, staged_files = [''site-20240101000000-httpsa.com.png''], metadata_json = None\<rparr>)
   \<and> [''https://a.com'', ''https://a.com'', ''https://b.com''] ! Suc 0 \<in> set (take (Suc 0) [''https://a.com'', ''https://a.com'', ''https://b.com''])
   \<and> iteration steady_driver viewport ''https://a.com''
        \<lparr>screenshots = 1, done_count = 1, scraped_urls = {''https://a.com''},
            metadata = [(''https://a.com'',
              \<lparr>url = ''https://a.com'', filename = ''site-20240101000000-httpsa.com.png'',
               timestamp = Some 1700000001, error = [],
               final_url = Some ''https://landing.example/'', subject = Some ''Example Domain''\<rparr>)]\<rparr>
        \<lparr>world = 1, staged_files = [''site-20240101000000-httpsa.com.png''], metadata_json = None\<rparr>
      = (Inr \<lparr>screenshots = 1, done_count = 2, scraped_urls = {''https://a.com''},
            metadata = [(''https://a.com'',
              \<lparr>url = ''https://a.com'', filename = ''site-20240101000000-httpsa.com.png'',
               timestamp = Some 1700000001, error = [],
               final_url = Some ''https://landing.example/'', subject = Some ''Example Domain''\<rparr>)]\<rparr>,
         \<lparr>world = 1, staged_files = [''site-20240101000000-httpsa.com.png''], metadata_json = None\<rparr>)"
  using duplicates_skipped[OF steady_head_1]
  by (simp add: steady_head_1 iteration_skip)


text \<open>
  Claim C9: a URL joins the processed set when its capture starts, whatever the attempts
  then return; so once the loop has passed a URL, also one whose two attempts both failed,
  the URL is in the processed set at every later loop head, its recorded result stays as
  it was recorded, and a later occurrence of it is skipped without a new attempt.
\<close>

theorem failed_url_stays_processed:
  assumes h: "loop_head S P us initial_locals e0 (Suc i) = Some (st, e)"
    and j: "loop_head S P us initial_locals e0 (Suc i + d) = Some (st', e')"
  shows "capture_loop S P us initial_locals e0 = capture_loop S P (drop (Suc i + d) us) st' e'
    \<and> us ! i \<in> scraped_urls st \<and> us ! i \<in> scraped_urls st'
    \<and> (\<exists>r. map_of (metadata st) (us ! i) = Some r)
    \<and> map_of (metadata st') (us ! i) = map_of (metadata st) (us ! i)
    \<and> (Suc i + d < length us \<and> us ! (Suc i + d) = us ! i \<longrightarrow>
         iteration S P (us ! (Suc i + d)) st' e' = (Inr (st'\<lparr>done_count := Suc (done_count st')\<rparr>), e'))
    \<and> (\<forall>u st0 e1 f ok errs st1 e2.
          capture_url S P u st0 e1 = (Inr (f, ok, errs, st1), e2) \<longrightarrow> u \<in> scraped_urls st1)"
proof -
  from loop_head_bound[OF h] have i: "i < length us" by simp
  then have "us ! i \<in> set (take (Suc i) us)" by (simp add: take_Suc_conv_app_nth)
  with loop_head_initial(3)[OF h] have 1: "us ! i \<in> scraped_urls st" by simp
  from loop_head_stable[OF h j 1]
  have 2: "us ! i \<in> scraped_urls st'" and 3: "map_of (metadata st') (us ! i) = map_of (metadata st) (us ! i)"
    by simp_all
  from 1 loop_head_initial(3,4)[OF h] have "us ! i \<in> fst ` set (metadata st)" by simp
  then have "us ! i \<in> dom (map_of (metadata st))" by (simp add: dom_map_of_conv_image_fst)
  then have 4: "\<exists>r. map_of (metadata st) (us ! i) = Some r" by blast
  have 5: "Suc i + d < length us \<and> us ! (Suc i + d) = us ! i \<longrightarrow>
         iteration S P (us ! (Suc i + d)) st' e' = (Inr (st'\<lparr>done_count := Suc (done_count st')\<rparr>), e')"
    using 2 by (simp add: iteration_skip)
  have 6: "\<forall>u st0 e1 f ok errs st1 e2.
          capture_url S P u st0 e1 = (Inr (f, ok, errs, st1), e2) \<longrightarrow> u \<in> scraped_urls st1"
    using capture_url_counts(4) by blast
  from capture_loop_from_head[OF j] 1 2 4 3 5 6 show ?thesis by (intro conjI)
qed

lemma dead_head_1:
  "loop_head dead_driver viewport [''https://a.com'', ''https://a.com'', ''https://b.com''] initial_locals empty_env (Suc 0) =
     Some (\<lparr>screenshots = 0, done_count = 1, scraped_urls = {''https://a.com''},
            metadata = [(''https://a.com'',
              \<lparr>url = ''https://a.com'', filename = ''site-20240101000000-httpsa.com.png'',
               timestamp = Some 1700000002, error = ''Attempt 1: timeout, Attempt 2: timeout'',
               final_url = None, subject = None\<rparr>)]\<rparr>,
           \<lparr>world = 2, staged_files = [], metadata_json = None\<rparr>)"
  by (simp add: loop_head_Cons scenario_interrupted dead_iteration initial_locals_def empty_env_def)

lemma dead_head_2:
  "loop_head dead_driver viewport [''https://a.com'', ''https://a.com'', ''https://b.com''] initial_locals empty_env (Suc 0 + 1) =
     Some (\<lparr>screenshots = 0, done_count = 2, scraped_urls = {''https://a.com''},
            metadata = [(''https://a.com'',
              \<lparr>url = ''https://a.com'', filename = ''site-20240101000000-httpsa.com.png'',
               timestamp = Some 1700000002, error = ''Attempt 1: timeout, Attempt 2: timeout'',
               final_url = None, subject = None\<rparr>)]\<rparr>,
           \<lparr>world = 2, staged_files = [], metadata_json = None\<rparr>)"
  by (simp add: loop_head_Cons scenario_interrupted dead_iteration iteration_skip initial_locals_def empty_env_def)

theorem failed_url_stays_processed_witness:
  "loop_head dead_driver viewport [''https://a.com'', ''https://a.com'', ''https://b.com''] initial_locals empty_env (Suc 0) =
     Some (\<lparr>screenshots = 0, done_count = 1, scraped_urls = {''https://a.com''},
            metadata = [(''https://a.com'',
              \<lparr>url = ''https://a.com'', filename = ''site-20240101000000-httpsa.com.png'',
               timestamp = Some 1700000002, error = ''Attempt 1: timeout, Attempt 2: timeout'',
               final_url = None, subject = None\<rparr>)]\<rparr>,
           \<lparr>world = 2, staged_files = [], metadata_json = None\<rparr>)
   \<and> loop_head dead_driver viewport [''https://a.com'', ''https://a.com'', ''https://b.com''] initial_locals empty_env (Suc 0 + 1) =
     Some (\<lparr>screenshots = 0, done_count = 2, scraped_urls = {''https://a.com''},
            metadata = [(''https://a.com'',
              \<lparr>url = ''https://a.com'', filename = ''site-20240101000000-httpsa.com.png'',
               timestamp = Some 1700000002, error = ''Attempt 1: timeout, Attempt 2: timeout'',
               final_url = None, subject = None\<rparr>)]\<rparr>,
           \<lparr>world = 2, staged_files = [], metadata_json = None\<rparr>)
   \<and> [''https://a.com'', ''https://a.com'', ''https://b.com''] ! 0 = ''https://a.com''"
proof -
  have n: "[''https://a.com'', ''https://a.com'', ''https://b.com''] ! 0 = ''https://a.com''" by simp
  from failed_url_stays_processed[OF dead_head_1 dead_head_2] dead_head_1 dead_head_2 n
  show ?thesis by (intro conjI)
qed

text \<open>
  Claim C10, as the code has it: at every head of the outer loop \<open>screenshots \<le> done\<close> and
  \<open>done\<close>, the number of URLs consumed, is at most the number of input URLs. Inside an
  iteration, between the increment of \<open>screenshots\<close> at line 197 and that of \<open>done\<close> at
  line 214, \<open>screenshots\<close> can be \<open>done + 1\<close>, and no more. When the loop completes,
  \<open>done\<close> is the number of input URLs, the result set has exactly one entry per distinct
  input URL, and every entry has a timestamp.
\<close>

theorem loop_counters:
  assumes h: "loop_head S P us initial_locals e0 k = Some (st, e)"
  shows "capture_loop S P us initial_locals e0 = capture_loop S P (drop k us) st e
    \<and> screenshots st \<le> done_count st \<and> done_count st = k \<and> k \<le> length us
    \<and> (\<forall>f ok errs st1 e1. capture_url S P (us ! k) st e = (Inr (f, ok, errs, st1), e1) \<longrightarrow>
          screenshots st1 \<le> Suc (done_count st1) \<and> done_count st1 = k)
    \<and> (\<forall>st' e'. get_items S P us e0 = (Inr st', e') \<longrightarrow>
          done_count st' = length us \<and> screenshots st' \<le> done_count st' \<and>
          distinct (map fst (metadata st')) \<and> fst ` set (metadata st') = set us \<and>
          (\<forall>p\<in>set (metadata st'). timestamp (snd p) \<noteq> None))"
proof -
  note i = loop_head_initial[OF h]
  have 1: "\<forall>f ok errs st1 e1. capture_url S P (us ! k) st e = (Inr (f, ok, errs, st1), e1) \<longrightarrow>
          screenshots st1 \<le> Suc (done_count st1) \<and> done_count st1 = k"
  proof (intro allI impI)
    fix f ok errs st1 e1
    assume c: "capture_url S P (us ! k) st e = (Inr (f, ok, errs, st1), e1)"
    from capture_url_counts(1,2)[OF c] i(1,2)
    show "screenshots st1 \<le> Suc (done_count st1) \<and> done_count st1 = k" by simp
  qed
  have 2: "\<forall>st' e'. get_items S P us e0 = (Inr st', e') \<longrightarrow>
          done_count st' = length us \<and> screenshots st' \<le> done_count st' \<and>
          distinct (map fst (metadata st')) \<and> fst ` set (metadata st') = set us \<and>
          (\<forall>p\<in>set (metadata st'). timestamp (snd p) \<noteq> None)"
  proof (intro allI impI)
    fix st' e' assume "get_items S P us e0 = (Inr st', e')"
    then obtain e1 where l: "loop_head S P us initial_locals e0 (length us) = Some (st', e1)"
      by (auto simp: get_items_Inr)
    note f = loop_head_initial[OF l]
    from f(1,2,4,5,6)
    show "done_count st' = length us \<and> screenshots st' \<le> done_count st' \<and>
          distinct (map fst (metadata st')) \<and> fst ` set (metadata st') = set us \<and>
          (\<forall>p\<in>set (metadata st'). timestamp (snd p) \<noteq> None)" by simp
  qed
  from i(1,2) have a: "screenshots st \<le> done_count st" by simp
  from capture_loop_from_head[OF h] a i(1,7) 1 2 show ?thesis by (intro conjI)
qed

theorem loop_counters_witness:
  "loop_head steady_driver viewport [''https://a.com'', ''https://a.com'', ''https://b.com''] initial_locals empty_env (Suc (Suc 0)) =
     Some (\<lparr>screenshots = 1, done_count = 2, scraped_urls = {''https://a.com''},
            metadata = [(''https://a.com'',
              \<lparr>url = ''https://a.com'', filename = ''site-20240101000000-httpsa.com.png'',
               timestamp = Some 1700000001, error = [],
               final_url = Some ''https://landing.example/'', subject = Some ''Example Domain''\<rparr>)]\<rparr>,
           \<lparr>world = 1, staged_files = [''site-20240101000000-httpsa.com.png''], metadata_json = None\<rparr>)
   \<and> (1::nat) \<le> 2 \<and> (2::nat) \<le> length [''https://a.com'', ''https://a.com'', ''https://b.com'']"
  using loop_counters[OF steady_head_2]
  by (simp add: steady_head_2)

text \<open>
  The first URL of a batch, captured at the first attempt: when control reaches line 204
  the screenshot counter is 1 and \<open>done\<close> is still 0.
\<close>

theorem screenshots_ahead_of_done:
  "capture_url steady_driver viewport ''https://a.com'' initial_locals empty_env =
     (Inr (''site-20240101000000-httpsa.com.png'', True, [],
           \<lparr>screenshots = 1, done_count = 0, scraped_urls = {''https://a.com''}, metadata = []\<rparr>),
      \<lparr>world = 1, staged_files = [''site-20240101000000-httpsa.com.png''], metadata_json = None\<rparr>)"
  by (simp add: capture_url_def steady_driver_def scripted_filename attempt_loop_0 scripted_attempt
        initial_locals_def empty_env_def)

end
